theory Spec2Isabelle
  imports Complex_Main "HOL-Library.AList" "HOL-Library.Sublist"
begin

section \<open>Local storage (src/utils/storage.ts)\<close>

text \<open>
  The values that \<^verbatim>\<open>JSON.parse\<close> can produce. Numbers are the finite doubles of a JSON
  text, read as reals. An object is its list of own properties in insertion order.
\<close>

datatype json =
    JNull
  | JBool bool
  | JNum real
  | JStr string
  | JArr "json list"
  | JObj "(string \<times> json) list"

text \<open>
  An item of \<^verbatim>\<open>localStorage\<close> is represented by what \<^verbatim>\<open>JSON.parse\<close> makes of its text:
  \<open>Malformed\<close> when parsing throws (the empty string included, which is also the only
  falsy text, so \<^verbatim>\<open>!stored\<close> and a failed parse lead to the same branch results below),
  and \<open>Json v\<close> when it yields \<open>v\<close>. \<^verbatim>\<open>JSON.stringify v\<close> followed by \<^verbatim>\<open>setItem\<close>
  stores \<open>Json v\<close>. \<^verbatim>\<open>getItem\<close> of a missing key is \<open>None\<close> (null).
\<close>

datatype item = Malformed | Json json

type_synonym storage = "string \<rightharpoonup> item"

datatype js_error = TypeError

definition RECENT_MAGNETS_KEY :: string where
  "RECENT_MAGNETS_KEY = ''nexo_recent_magnets''"

definition PLAYBACK_POSITION_KEY :: string where
  "PLAYBACK_POSITION_KEY = ''nexo_playback_positions''"

definition EXAMPLE_MAGNET :: string where
  "EXAMPLE_MAGNET = ''magnet:?xt=urn:btih:7943AA61FAF369A2106790BFAE6002D6438B2B57&dn=Robin%20Hood%202025%20S01E03%20XviD-AFG&tr=udp%3A%2F%2Ftracker.opentrackr.org%3A1337&tr=udp%3A%2F%2Fopen.stealth.si%3A80%2Fannounce&tr=udp%3A%2F%2Ftracker.torrent.eu.org%3A451%2Fannounce&tr=udp%3A%2F%2Ftracker.bittor.pw%3A1337%2Fannounce&tr=udp%3A%2F%2Fpublic.popcorn-tracker.org%3A6969%2Fannounce&tr=udp%3A%2F%2Ftracker.dler.org%3A6969%2Fannounce&tr=udp%3A%2F%2Fexodus.desync.com%3A6969&tr=udp%3A%2F%2Fopen.demonii.com%3A1337%2Fannounce''"

text \<open>JavaScript truthiness of a parsed value (the left operand of \<^verbatim>\<open>||\<close>).\<close>

fun truthy :: "json \<Rightarrow> bool" where
  "truthy JNull = False"
| "truthy (JBool b) = b"
| "truthy (JNum r) = (r \<noteq> 0)"
| "truthy (JStr s) = (s \<noteq> [])"
| "truthy (JArr xs) = True"
| "truthy (JObj ps) = True"

text \<open>
  Media identities are built in three places of the player (part_002, lines 394, 491
  and 493) and always carry one of three prefixes. No built-in or inherited property of
  an object, array, string, number or boolean has such a name, so the property
  operations below model own properties only and are used at media identities only.
\<close>

definition is_media_id :: "string \<Rightarrow> bool" where
  "is_media_id m \<longleftrightarrow>
     prefix ''local-file-'' m \<or> prefix ''iptv-channel-'' m \<or> prefix ''torrent-'' m"

text \<open>
  \<^verbatim>\<open>positions[mediaId]\<close>: reading a property of null throws; an object gives its own
  property or undefined (\<open>None\<close>); any other value has no property of that name.
\<close>

fun js_get :: "json \<Rightarrow> string \<Rightarrow> js_error + json option" where
  "js_get JNull k = Inl TypeError"
| "js_get (JObj ps) k = Inr (map_of ps k)"
| "js_get v k = Inr None"

text \<open>
  \<^verbatim>\<open>positions[mediaId] = time\<close> as seen by the \<^verbatim>\<open>JSON.stringify\<close> that follows it.
  An object gets the property (in place when it exists, appended otherwise). An array
  accepts the named property but serialises without it. On null and on a primitive the
  assignment throws (the file is a module, hence strict code).
\<close>

fun js_set :: "json \<Rightarrow> string \<Rightarrow> json \<Rightarrow> js_error + json" where
  "js_set (JObj ps) k x = Inr (JObj (AList.update k x ps))"
| "js_set (JArr xs) k x = Inr (JArr xs)"
| "js_set v k x = Inl TypeError"

text \<open>\<^verbatim>\<open>delete positions[mediaId]\<close>: throws on null, removes an own property of an object,
  and leaves every other value as it is.\<close>

fun js_delete :: "json \<Rightarrow> string \<Rightarrow> js_error + json" where
  "js_delete JNull k = Inl TypeError"
| "js_delete (JObj ps) k = Inr (JObj (AList.delete k ps))"
| "js_delete v k = Inr v"

text \<open>
  \<^verbatim>\<open>getPlaybackPosition\<close>: null (\<open>None\<close>) when nothing is stored, when parsing or the
  property read throws, and when the property is falsy; the property's value otherwise.
\<close>

definition getPlaybackPosition :: "storage \<Rightarrow> string \<Rightarrow> json option" where
  "getPlaybackPosition ls mediaId =
     (case ls PLAYBACK_POSITION_KEY of
        None \<Rightarrow> None
      | Some Malformed \<Rightarrow> None
      | Some (Json positions) \<Rightarrow>
          (case js_get positions mediaId of
             Inl e \<Rightarrow> None
           | Inr None \<Rightarrow> None
           | Inr (Some v) \<Rightarrow> if truthy v then Some v else None))"

text \<open>
  \<^verbatim>\<open>setPlaybackPosition\<close>: the stored object, or a fresh one when nothing is stored or
  parsing throws; the assignment stands outside the \<^verbatim>\<open>try\<close>, so its exception leaves
  the function and nothing is written.
\<close>

definition setPlaybackPosition :: "string \<Rightarrow> real \<Rightarrow> storage \<Rightarrow> js_error + storage" where
  "setPlaybackPosition mediaId time ls =
     (let positions = (case ls PLAYBACK_POSITION_KEY of
                         Some (Json v) \<Rightarrow> v
                       | _ \<Rightarrow> JObj [])
      in case js_set positions mediaId (JNum time) of
           Inl e \<Rightarrow> Inl e
         | Inr positions' \<Rightarrow> Inr (ls(PLAYBACK_POSITION_KEY \<mapsto> Json positions')))"

text \<open>\<^verbatim>\<open>clearPlaybackPosition\<close>: returns at once when nothing is stored; a parse or
  delete exception is caught and ignored.\<close>

definition clearPlaybackPosition :: "string \<Rightarrow> storage \<Rightarrow> storage" where
  "clearPlaybackPosition mediaId ls =
     (case ls PLAYBACK_POSITION_KEY of
        None \<Rightarrow> ls
      | Some Malformed \<Rightarrow> ls
      | Some (Json positions) \<Rightarrow>
          (case js_delete positions mediaId of
             Inl e \<Rightarrow> ls
           | Inr positions' \<Rightarrow> ls(PLAYBACK_POSITION_KEY \<mapsto> Json positions')))"

text \<open>The storage a caller sees after a call that may have thrown.\<close>

definition storage_after :: "storage \<Rightarrow> js_error + storage \<Rightarrow> storage" where
  "storage_after ls r = (case r of Inl e \<Rightarrow> ls | Inr ls' \<Rightarrow> ls')"

text \<open>
  \<^verbatim>\<open>getRecentMagnets\<close>: the example when the key is missing, the parsed array when the
  item parses to one, and the empty list for a parse failure or any other value.
\<close>

definition getRecentMagnets :: "storage \<Rightarrow> json list" where
  "getRecentMagnets ls =
     (case ls RECENT_MAGNETS_KEY of
        None \<Rightarrow> [JStr EXAMPLE_MAGNET]
      | Some Malformed \<Rightarrow> []
      | Some (Json (JArr parsed)) \<Rightarrow> parsed
      | Some (Json v) \<Rightarrow> [])"

definition is_array :: "json \<Rightarrow> bool" where
  "is_array v = (case v of JArr xs \<Rightarrow> True | _ \<Rightarrow> False)"


section \<open>The unified player (unnamed/part_002)\<close>

subsection \<open>Strings\<close>

text \<open>
  \<^verbatim>\<open>String.prototype.toLowerCase\<close> on the ASCII letters. The only use is in front of
  \<^verbatim>\<open>includes('intro')\<close>; outside ASCII the function changes no character into one of
  the letters of that word next to its neighbours, so the test is the same.
\<close>

definition toLowerCase_char :: "char \<Rightarrow> char" where
  "toLowerCase_char c =
     (case map_of (zip ''ABCDEFGHIJKLMNOPQRSTUVWXYZ'' ''abcdefghijklmnopqrstuvwxyz'') c of
        Some l \<Rightarrow> l
      | None \<Rightarrow> c)"

definition toLowerCase :: "string \<Rightarrow> string" where
  "toLowerCase s = map toLowerCase_char s"

text \<open>\<^verbatim>\<open>s.includes(pat)\<close>: \<open>pat\<close> occurs in \<open>s\<close> as a contiguous run.\<close>

fun str_includes :: "string \<Rightarrow> string \<Rightarrow> bool" where
  "str_includes [] pat = (pat = [])"
| "str_includes (c # s) pat = (prefix pat (c # s) \<or> str_includes s pat)"

text \<open>The decimal digits of a number, as a template literal prints an index.\<close>

fun decimal :: "nat \<Rightarrow> string" where
  "decimal n =
     (if n < 10 then [''0123456789'' ! n]
      else decimal (n div 10) @ [''0123456789'' ! (n mod 10)])"

declare decimal.simps [simp del]

subsection \<open>The media element and the component state\<close>

text \<open>
  Numbers are doubles, read as the reals they denote. Comparisons and the literals 0
  and 5 are exact. A division is rounded: its result is the double nearest to the exact
  quotient, a tie going to the even significand. \<open>round_double\<close> is that rounding on
  the normal range, with 53 bits of significand; where the code's quotient overflows or
  is subnormal the comparison below comes out the same. \<open>double_095\<close> is the double
  that the literal \<^verbatim>\<open>0.95\<close> denotes, a little below 19/20.
\<close>

definition round_half_even :: "real \<Rightarrow> int" where
  "round_half_even y =
     (let f = \<lfloor>y\<rfloor>; r = y - of_int f
      in if r < 1 / 2 then f else if 1 / 2 < r then f + 1 else if even f then f else f + 1)"

definition round_double :: "real \<Rightarrow> real" where
  "round_double x =
     (if x = 0 then 0
      else (let e = \<lfloor>log 2 \<bar>x\<bar>\<rfloor>; u = 2 powr (of_int e - 52)
            in of_int (round_half_even (x / u)) * u))"

definition double_095 :: real where
  "double_095 = 4278419646001971 / 4503599627370496"

text \<open>
  \<^verbatim>\<open>video.duration\<close> is NaN while unknown, positive infinity for a live stream and a
  finite number of seconds otherwise. The two tests of the write timer on it:
  \<^verbatim>\<open>video.duration > 0\<close> and \<^verbatim>\<open>time / video.duration > 0.95\<close>. A quotient by NaN is NaN
  and a quotient by infinity is 0, neither above 0.95.
\<close>

datatype duration = NaN | Seconds real | Infinity

fun duration_positive :: "duration \<Rightarrow> bool" where
  "duration_positive NaN = False"
| "duration_positive (Seconds d) = (d > 0)"
| "duration_positive Infinity = True"

definition ratio_above_95 :: "real \<Rightarrow> duration \<Rightarrow> bool" where
  "ratio_above_95 time d =
     (case d of
        NaN \<Rightarrow> False
      | Seconds s \<Rightarrow> round_double (time / s) > double_095
      | Infinity \<Rightarrow> False)"

record video =
  v_currentTime :: real
  v_duration :: duration
  play_calls :: nat

record Chapter =
  timestamp :: real
  name :: string

text \<open>
  The part of the component state that the time-update handler, the write timer, the
  resume prompt and the skip-intro button read and write. \<open>videoRef\<close> is
  \<^verbatim>\<open>videoRef.current\<close>. \<open>timeUpdateTimeoutRef\<close> tells whether the ref holds a timer id;
  \<open>pendingWrite\<close> is the timer callback that has not run yet, with the \<^verbatim>\<open>mediaId\<close> and
  \<^verbatim>\<open>time\<close> that its closure captured.
\<close>

record player =
  videoRef :: "video option"
  mediaId :: "string option"
  currentTime :: real
  resumeTime :: "real option"
  chapters :: "Chapter list option"
  showSkipIntro :: bool
  timeUpdateTimeoutRef :: bool
  pendingWrite :: "(string option \<times> real) option"
  localStorage :: storage

subsection \<open>Skip intro\<close>

definition is_intro :: "Chapter \<Rightarrow> bool" where
  "is_intro c = str_includes (toLowerCase (name c)) ''intro''"

text \<open>The two \<^verbatim>\<open>find\<close> calls shared by \<^verbatim>\<open>onTimeUpdate\<close> and \<^verbatim>\<open>handleSkipIntro\<close>.\<close>

definition find_intro :: "Chapter list \<Rightarrow> Chapter option" where
  "find_intro cs = find is_intro cs"

definition find_introEnd :: "Chapter list \<Rightarrow> Chapter option" where
  "find_introEnd cs =
     (case find_intro cs of
        None \<Rightarrow> None
      | Some intro \<Rightarrow> find (\<lambda>c. timestamp c > timestamp intro) cs)"

text \<open>The condition under which \<^verbatim>\<open>onTimeUpdate\<close> shows the skip button.\<close>

definition isInIntroWindow :: "Chapter list \<Rightarrow> real \<Rightarrow> bool" where
  "isInIntroWindow cs time =
     (case find_intro cs of
        None \<Rightarrow> False
      | Some intro \<Rightarrow>
          (case find_introEnd cs of
             None \<Rightarrow> False
           | Some introEnd \<Rightarrow> time > timestamp intro \<and> time < timestamp introEnd))"

definition handleSkipIntro :: "player \<Rightarrow> player" where
  "handleSkipIntro p =
     (case (chapters p, videoRef p) of
        (Some cs, Some v) \<Rightarrow>
          (case find_introEnd cs of
             None \<Rightarrow> p
           | Some introEnd \<Rightarrow>
               p\<lparr>videoRef := Some (v\<lparr>v_currentTime := timestamp introEnd\<rparr>),
                 showSkipIntro := False\<rparr>)
      | _ \<Rightarrow> p)"

subsection \<open>Time updates and the coalesced position write\<close>

text \<open>
  \<^verbatim>\<open>onTimeUpdate\<close>, the listener of the element's \<^verbatim>\<open>timeupdate\<close> event. The skip
  button is recomputed only when chapters are known. A write timer is armed only when
  the ref holds none; its closure keeps the time read now.
\<close>

definition onTimeUpdate :: "player \<Rightarrow> player" where
  "onTimeUpdate p =
     (case videoRef p of
        None \<Rightarrow> p
      | Some v \<Rightarrow>
          (let time = v_currentTime v;
               p1 = p\<lparr>currentTime := time\<rparr>;
               p2 = (case chapters p1 of
                       None \<Rightarrow> p1
                     | Some cs \<Rightarrow> p1\<lparr>showSkipIntro := isInIntroWindow cs time\<rparr>)
           in if \<not> timeUpdateTimeoutRef p2
              then p2\<lparr>timeUpdateTimeoutRef := True, pendingWrite := Some (mediaId p2, time)\<rparr>
              else p2))"

text \<open>
  The body of the timer callback, 15 seconds later: with a media identity, a positive
  captured time and a positive duration it clears the position when the ratio is above
  0.95 and records it otherwise. \<open>Inl\<close> is the exception of \<^verbatim>\<open>setPlaybackPosition\<close>.
\<close>

definition writeBody :: "string option \<Rightarrow> real \<Rightarrow> duration \<Rightarrow> storage \<Rightarrow> js_error + storage" where
  "writeBody mid time d ls =
     (case mid of
        None \<Rightarrow> Inr ls
      | Some m \<Rightarrow>
          if m \<noteq> [] \<and> time > 0 \<and> duration_positive d
          then (if ratio_above_95 time d
                then Inr (clearPlaybackPosition m ls)
                else setPlaybackPosition m time ls)
          else Inr ls)"

text \<open>
  The timer fires. The ref is reset after the body, so an exception in the body leaves
  it set although no callback is pending any more.
\<close>

definition timerFires :: "player \<Rightarrow> player" where
  "timerFires p =
     (case (pendingWrite p, videoRef p) of
        (Some (mid, time), Some v) \<Rightarrow>
          (case writeBody mid time (v_duration v) (localStorage p) of
             Inl e \<Rightarrow> p\<lparr>pendingWrite := None\<rparr>
           | Inr ls' \<Rightarrow> p\<lparr>pendingWrite := None, localStorage := ls',
                           timeUpdateTimeoutRef := False\<rparr>)
      | _ \<Rightarrow> p)"

text \<open>Playback moves the element to a new position and the element reports it.\<close>

definition playbackReaches :: "real \<Rightarrow> player \<Rightarrow> player" where
  "playbackReaches t p =
     onTimeUpdate (p\<lparr>videoRef := map_option (\<lambda>v. v\<lparr>v_currentTime := t\<rparr>) (videoRef p)\<rparr>)"

subsection \<open>Resume prompt\<close>

definition video_play :: "player \<Rightarrow> player" where
  "video_play p = p\<lparr>videoRef := map_option (\<lambda>v. v\<lparr>play_calls := Suc (play_calls v)\<rparr>) (videoRef p)\<rparr>"

text \<open>
  The effect that runs when \<^verbatim>\<open>mediaId\<close> is set. \<^verbatim>\<open>savedTime\<close> is declared a number or
  null, and the player itself stores numbers only. A stored value of another kind, which
  only a foreign writer of the storage can leave, would be coerced by the comparison;
  the model sends it to the branch without an offer.
\<close>

definition savedPositionEffect :: "player \<Rightarrow> player" where
  "savedPositionEffect p =
     (case mediaId p of
        None \<Rightarrow> p
      | Some m \<Rightarrow>
          if m = [] then p
          else (case getPlaybackPosition (localStorage p) m of
                  Some (JNum savedTime) \<Rightarrow>
                    if savedTime > 5 then p\<lparr>resumeTime := Some savedTime\<rparr> else video_play p
                | _ \<Rightarrow> video_play p))"

text \<open>\<^verbatim>\<open>renderResumePrompt\<close> shows the offer while \<^verbatim>\<open>resumeTime\<close> is truthy.\<close>

definition resumeOffered :: "player \<Rightarrow> real option" where
  "resumeOffered p =
     (case resumeTime p of
        None \<Rightarrow> None
      | Some t \<Rightarrow> if t \<noteq> 0 then Some t else None)"

text \<open>\<^verbatim>\<open>handleResumePlayback(resume)\<close>: the handler of the two buttons of the prompt,
  \<open>True\<close> for resuming and \<open>False\<close> for restarting.\<close>

definition handleResumePlayback :: "bool \<Rightarrow> player \<Rightarrow> player" where
  "handleResumePlayback resume p =
     (case videoRef p of
        None \<Rightarrow> p
      | Some v \<Rightarrow>
          (let v1 = (case resumeOffered p of
                       Some t \<Rightarrow> if resume then v\<lparr>v_currentTime := t\<rparr> else v
                     | None \<Rightarrow> v)
           in p\<lparr>videoRef := Some (v1\<lparr>play_calls := Suc (play_calls v1)\<rparr>),
                resumeTime := None\<rparr>))"

subsection \<open>What happens while a write timer is held\<close>




subsection \<open>Notions of the specification\<close>


text \<open>
  The intro window in the specification's words, not taken from the code: the first
  chapter in list order whose name holds "intro" in any case opens it, the chapter with
  the least timestamp strictly above the opening one closes it, and the time lies
  between the two, below the closing timestamp. The flag says whether the opening
  timestamp itself belongs to the window.
\<close>

definition intro_window :: "bool \<Rightarrow> Chapter list \<Rightarrow> real \<Rightarrow> bool" where
  "intro_window start_included cs t \<longleftrightarrow>
     (\<exists>k<length cs.
        is_intro (cs ! k) \<and> (\<forall>j<k. \<not> is_intro (cs ! j)) \<and>
        (\<exists>nxt\<in>set cs.
           timestamp (cs ! k) < timestamp nxt \<and>
           (\<forall>c\<in>set cs. timestamp (cs ! k) < timestamp c \<longrightarrow> timestamp nxt \<le> timestamp c) \<and>
           (if start_included then timestamp (cs ! k) \<le> t else timestamp (cs ! k) < t) \<and>
           t < timestamp nxt))"

text \<open>The chapter list of the specification's example.\<close>

definition spec_chapters :: "Chapter list" where
  "spec_chapters =
     [\<lparr>timestamp = 0, name = ''Intro''\<rparr>, \<lparr>timestamp = 90, name = ''Episode''\<rparr>,
      \<lparr>timestamp = 1200, name = ''Credits''\<rparr>]"

text \<open>
  A player on a local file of 100 seconds, freshly mounted, whose identity has the
  position 42 on record.
\<close>

definition demo_id :: string where
  "demo_id = ''local-file-a.mp4-10-20''"

definition demo_player :: player where
  "demo_player =
     \<lparr>videoRef = Some \<lparr>v_currentTime = 0, v_duration = Seconds 100, play_calls = 0\<rparr>,
      mediaId = Some demo_id, currentTime = 0, resumeTime = None, chapters = None,
      showSkipIntro = False, timeUpdateTimeoutRef = False, pendingWrite = None,
      localStorage = [PLAYBACK_POSITION_KEY \<mapsto> Json (JObj [(demo_id, JNum 42)])]\<rparr>"


section \<open>Subtitle tracks (unnamed/part_002)\<close>

text \<open>\<^verbatim>\<open>SubtitleTrack\<close> of src/types.ts: a track as the menus list it.\<close>

record SubtitleTrack =
  src :: string
  label :: string
  srclang :: string

datatype TextTrackMode = Disabled | Hidden | Showing

text \<open>
  A cue is an object of the page; the registry of original timings is a \<^verbatim>\<open>Map\<close> keyed
  by the cue object itself. A cue is therefore modelled by its address, and the timings
  the element currently shows are kept in a store from addresses to timings.
\<close>

type_synonym cue = nat

record cue_times =
  startTime :: real
  endTime :: real

text \<open>A \<^verbatim>\<open>TextTrack\<close> of the media element; \<open>cues\<close> is null until the track is loaded.\<close>

record TextTrack =
  kind :: string
  tt_label :: string
  language :: string
  mode :: TextTrackMode
  cues :: "cue list option"

subsection \<open>Merging embedded and external tracks\<close>

text \<open>The identifier \<^verbatim>\<open>`embedded-${i}-${track.label}-${track.language}`\<close>.\<close>

definition embedded_src :: "nat \<Rightarrow> TextTrack \<Rightarrow> string" where
  "embedded_src i track =
     ''embedded-'' @ decimal i @ ''-'' @ tt_label track @ ''-'' @ language track"

text \<open>
  \<^verbatim>\<open>embeddedTracks\<close> in \<^verbatim>\<open>handleTracks\<close>: the subtitle and caption tracks of the element,
  each turned into a \<^verbatim>\<open>SubtitleTrack\<close>; the index counts within the filtered list.
\<close>

definition embeddedTracks :: "TextTrack list \<Rightarrow> SubtitleTrack list" where
  "embeddedTracks textTracks =
     map (\<lambda>(i, track).
            \<lparr>src = embedded_src i track,
             label = (if tt_label track \<noteq> [] then tt_label track
                      else if language track \<noteq> [] then language track
                      else ''Track '' @ decimal (i + 1)),
             srclang = language track\<rparr>)
         (enumerate 0
            (filter (\<lambda>track. kind track = ''subtitles'' \<or> kind track = ''captions'') textTracks))"

text \<open>
  \<^verbatim>\<open>Array.from(new Map(entries).values())\<close>: the constructor sets the entries one after
  the other; setting a key that is present replaces its value and keeps its position,
  setting a new key appends it.
\<close>

definition Map_values :: "('k \<times> 'v) list \<Rightarrow> 'v list" where
  "Map_values entries = map snd (fold (\<lambda>(k, v) m. AList.update k v m) entries [])"

text \<open>The list that \<^verbatim>\<open>handleTracks\<close> passes to \<^verbatim>\<open>setAvailableSubtitleTracks\<close>, from the
  external tracks (\<^verbatim>\<open>subtitleTracks\<close>) and the element's text tracks.\<close>

definition handleTracks :: "SubtitleTrack list \<Rightarrow> TextTrack list \<Rightarrow> SubtitleTrack list" where
  "handleTracks subtitleTracks textTracks =
     (let combined = subtitleTracks @ embeddedTracks textTracks
      in Map_values (map (\<lambda>item. (label item, item)) combined))"

subsection \<open>Visibility of the active track\<close>

definition isTrackActive :: "SubtitleTrack option \<Rightarrow> nat \<Rightarrow> TextTrack \<Rightarrow> bool" where
  "isTrackActive activeSubtitleTrack i textTrack =
     (case activeSubtitleTrack of
        None \<Rightarrow> False
      | Some a \<Rightarrow> tt_label textTrack = label a \<or> embedded_src i textTrack = src a)"

text \<open>The loop of the visibility effect over \<^verbatim>\<open>video.textTracks\<close>.\<close>

definition showActiveTrack :: "SubtitleTrack option \<Rightarrow> TextTrack list \<Rightarrow> TextTrack list" where
  "showActiveTrack activeSubtitleTrack textTracks =
     map (\<lambda>(i, textTrack).
            textTrack\<lparr>mode := (if isTrackActive activeSubtitleTrack i textTrack
                               then Showing else Hidden)\<rparr>)
         (enumerate 0 textTracks)"

text \<open>The effect returns at once when there is no element (\<open>None\<close>).\<close>

definition visibilityEffect ::
  "SubtitleTrack option \<Rightarrow> TextTrack list option \<Rightarrow> TextTrack list option" where
  "visibilityEffect activeSubtitleTrack textTracks =
     map_option (showActiveTrack activeSubtitleTrack) textTracks"

subsection \<open>Subtitle offset\<close>

text \<open>\<open>originalCueTimesRef\<close> is the registry; \<open>cueTimes\<close> is the store of the cue objects.\<close>

record subtitles =
  originalCueTimesRef :: "cue \<rightharpoonup> cue_times"
  cueTimes :: "cue \<Rightarrow> cue_times"

definition shifted :: "cue_times \<Rightarrow> real \<Rightarrow> cue_times" where
  "shifted original offset =
     \<lparr>startTime = startTime original + offset, endTime = endTime original + offset\<rparr>"

text \<open>
  \<^verbatim>\<open>applyOffset\<close> on the cues of the active track. When the registry does not have the
  first cue (\<open>first_unknown\<close>; for an empty list the first cue is \<^verbatim>\<open>undefined\<close>, which is
  never a key), the current timings of all cues are entered. Then every cue with an entry is set to its entry
  plus the offset.
\<close>

definition first_unknown :: "cue list \<Rightarrow> subtitles \<Rightarrow> bool" where
  "first_unknown track_cues s =
     (case track_cues of
        [] \<Rightarrow> True
      | c # cs \<Rightarrow> originalCueTimesRef s c = None)"

definition applyOffset :: "cue list \<Rightarrow> real \<Rightarrow> subtitles \<Rightarrow> subtitles" where
  "applyOffset track_cues offset s =
     (let originals = (if first_unknown track_cues s
                       then fold (\<lambda>cue m. m(cue \<mapsto> cueTimes s cue)) track_cues
                              (originalCueTimesRef s)
                       else originalCueTimesRef s)
      in \<lparr>originalCueTimesRef = originals,
          cueTimes = fold (\<lambda>cue h. case originals cue of
                                     None \<Rightarrow> h
                                   | Some original \<Rightarrow> h(cue := shifted original offset))
                       track_cues (cueTimes s)\<rparr>)"

text \<open>
  The offset effect: without an active track, without a text track of its label, or
  while that track has no cues yet, nothing is applied now.
\<close>

definition offsetEffect ::
  "SubtitleTrack option \<Rightarrow> real \<Rightarrow> TextTrack list \<Rightarrow> subtitles \<Rightarrow> subtitles" where
  "offsetEffect activeSubtitleTrack offset textTracks s =
     (case activeSubtitleTrack of
        None \<Rightarrow> s
      | Some a \<Rightarrow>
          (case find (\<lambda>t. tt_label t = label a) textTracks of
             None \<Rightarrow> s
           | Some track \<Rightarrow>
               (case cues track of
                  None \<Rightarrow> s
                | Some track_cues \<Rightarrow> applyOffset track_cues offset s)))"


subsection \<open>Example tracks and cues\<close>

definition english_external :: SubtitleTrack where
  "english_external = \<lparr>src = ''blob:subtitle-1'', label = ''English'', srclang = ''en''\<rparr>"

definition deutsch_external :: SubtitleTrack where
  "deutsch_external = \<lparr>src = ''blob:subtitle-2'', label = ''Deutsch'', srclang = ''de''\<rparr>"

definition english_embedded :: SubtitleTrack where
  "english_embedded = \<lparr>src = ''embedded-0-English-en'', label = ''English'', srclang = ''en''\<rparr>"

definition english_textTrack :: TextTrack where
  "english_textTrack =
     \<lparr>kind = ''subtitles'', tt_label = ''English'', language = ''en'', mode = Disabled, cues = None\<rparr>"

definition deutsch_textTrack :: TextTrack where
  "deutsch_textTrack =
     \<lparr>kind = ''subtitles'', tt_label = ''Deutsch'', language = ''de'', mode = Disabled, cues = None\<rparr>"

text \<open>
  Three cues, never seen by the registry: cues 1 and 2 at 10 to 12 and 20 to 25 seconds,
  and cue 3, an earlier one, at 2 to 4 seconds.
\<close>

definition fresh_subtitles :: subtitles where
  "fresh_subtitles =
     \<lparr>originalCueTimesRef = Map.empty,
      cueTimes = (\<lambda>c. \<lparr>startTime = 0, endTime = 0\<rparr>)
        (1 := \<lparr>startTime = 10, endTime = 12\<rparr>, 2 := \<lparr>startTime = 20, endTime = 25\<rparr>,
         3 := \<lparr>startTime = 2, endTime = 4\<rparr>)\<rparr>"


section \<open>Download queue (unnamed/part_002)\<close>

record TorrentFile =
  file_name :: string
  file_length :: nat

datatype DownloadStatus = Queued | Preparing | Downloading | Done | Error

record DownloadQueueItem =
  item_file :: TorrentFile
  item_status :: DownloadStatus
  item_error :: "string option"
  item_url :: "string option"

text \<open>
  The queue state of the component. \<open>downloadQueue\<close> is the state itself, with every
  update made so far applied to it (what an updater receives as \<^verbatim>\<open>prev\<close>). \<open>rendered\<close> is
  the constant \<^verbatim>\<open>downloadQueue\<close> of the last render, which the closures of the handler
  and of the effect hold. \<open>dirty\<close> says that \<^verbatim>\<open>setDownloadQueue\<close> was called since that
  render. \<open>blobRequests\<close> holds the names of the files on which \<^verbatim>\<open>getBlobURL\<close> was called
  and whose callback has not run; \<open>saving\<close> holds the names for which the callback has
  made its first update (downloading) and not yet its last (done).
\<close>

record downloads =
  downloadQueue :: "DownloadQueueItem list"
  rendered :: "DownloadQueueItem list"
  dirty :: bool
  blobRequests :: "string list"
  saving :: "string list"

text \<open>The identity of an item in the queue is the name of its file.\<close>

abbreviation nm :: "DownloadQueueItem \<Rightarrow> string" where
  "nm i \<equiv> file_name (item_file i)"

definition in_flight :: "DownloadQueueItem \<Rightarrow> bool" where
  "in_flight item \<longleftrightarrow> item_status item \<in> {Preparing, Downloading}"

text \<open>\<^verbatim>\<open>setDownloadQueue(updater)\<close>: the updater is applied to the state as it is then.\<close>

definition setDownloadQueue ::
  "(DownloadQueueItem list \<Rightarrow> DownloadQueueItem list) \<Rightarrow> downloads \<Rightarrow> downloads" where
  "setDownloadQueue updater s = s\<lparr>downloadQueue := updater (downloadQueue s), dirty := True\<rparr>"

text \<open>The updater \<^verbatim>\<open>q => q.map(i => i.file.name === name ? {...i, ...} : i)\<close>.\<close>

definition update_named ::
  "string \<Rightarrow> (DownloadQueueItem \<Rightarrow> DownloadQueueItem) \<Rightarrow> DownloadQueueItem list
     \<Rightarrow> DownloadQueueItem list" where
  "update_named n f q = map (\<lambda>i. if nm i = n then f i else i) q"

text \<open>
  \<^verbatim>\<open>handleAddToDownloadQueue\<close>: the presence of the file name is tested on the queue of
  the last render; the item is appended to the state by an updater.
\<close>

definition handleAddToDownloadQueue :: "TorrentFile \<Rightarrow> downloads \<Rightarrow> downloads" where
  "handleAddToDownloadQueue f s =
     (if \<not> (\<exists>item\<in>set (rendered s). nm item = file_name f)
      then setDownloadQueue
             (\<lambda>prev. prev @ [\<lparr>item_file = f, item_status = Queued, item_error = None,
                                item_url = None\<rparr>]) s
      else s)"

text \<open>
  The queue effect, with the queue of the render it belongs to: it returns when an item
  is preparing or downloading; otherwise it takes the first queued item, marks the items
  of that file name preparing in the state and asks for the blob of the file.
\<close>

definition queueEffect :: "downloads \<Rightarrow> downloads" where
  "queueEffect s =
     (if \<exists>item\<in>set (rendered s). in_flight item then s
      else (case find (\<lambda>item. item_status item = Queued) (rendered s) of
              None \<Rightarrow> s
            | Some nextInQueue \<Rightarrow>
                (let n = nm nextInQueue
                 in (setDownloadQueue (update_named n (\<lambda>i. i\<lparr>item_status := Preparing\<rparr>)) s)
                      \<lparr>blobRequests := blobRequests s @ [n]\<rparr>)))"

text \<open>
  A render after the state was set: the closures get the state as their queue, and the
  effect, which depends on the queue, runs. Without a call of \<^verbatim>\<open>setDownloadQueue\<close> the
  queue is the same array and the effect does not run.
\<close>

definition render :: "downloads \<Rightarrow> downloads" where
  "render s =
     (if dirty s then queueEffect (s\<lparr>rendered := downloadQueue s, dirty := False\<rparr>) else s)"

text \<open>The callback of \<^verbatim>\<open>getBlobURL\<close> with an error or without a url.\<close>

definition blobFailed :: "string \<Rightarrow> string option \<Rightarrow> downloads \<Rightarrow> downloads" where
  "blobFailed n message s =
     (setDownloadQueue
        (update_named n
           (\<lambda>i. i\<lparr>item_status := Error,
                   item_error := Some (case message of None \<Rightarrow> ''Failed'' | Some m \<Rightarrow>
                                         if m = [] then ''Failed'' else m)\<rparr>)) s)
       \<lparr>blobRequests := remove1 n (blobRequests s)\<rparr>"

text \<open>The callback with a url: its first update, before the file is saved.\<close>

definition blobReady :: "string \<Rightarrow> string \<Rightarrow> downloads \<Rightarrow> downloads" where
  "blobReady n u s =
     (setDownloadQueue
        (update_named n (\<lambda>i. i\<lparr>item_status := Downloading, item_url := Some u\<rparr>)) s)
       \<lparr>blobRequests := remove1 n (blobRequests s), saving := saving s @ [n]\<rparr>"

text \<open>The same callback after \<^verbatim>\<open>handleSaveFile\<close>: its last update.\<close>

definition saved :: "string \<Rightarrow> downloads \<Rightarrow> downloads" where
  "saved n s =
     (setDownloadQueue (update_named n (\<lambda>i. i\<lparr>item_status := Done\<rparr>)) s)
       \<lparr>saving := remove1 n (saving s)\<rparr>"

text \<open>
  What can happen to the queue: the handler is called with a file, the component
  renders (and the effect runs), or a callback that is under way makes its next update.
  A callback event for a name that has no callback under way cannot happen and changes
  nothing. The two updates of a successful callback are separate steps, so the state
  between them is a state of the run; the source makes them in one go, which is the run
  where \<open>Saved\<close> follows \<open>BlobUrl\<close> directly.
\<close>

datatype queue_event =
    Enqueue TorrentFile
  | Render
  | BlobError string "string option"
  | BlobUrl string string
  | Saved string

fun queue_step :: "queue_event \<Rightarrow> downloads \<Rightarrow> downloads" where
  "queue_step (Enqueue f) s = handleAddToDownloadQueue f s"
| "queue_step Render s = render s"
| "queue_step (BlobError n message) s =
     (if n \<in> set (blobRequests s) then blobFailed n message s else s)"
| "queue_step (BlobUrl n u) s =
     (if n \<in> set (blobRequests s)
      then (if u = [] then blobFailed n None s else blobReady n u s)
      else s)"
| "queue_step (Saved n) s = (if n \<in> set (saving s) then saved n s else s)"

definition no_downloads :: downloads where
  "no_downloads =
     \<lparr>downloadQueue = [], rendered = [], dirty = False, blobRequests = [], saving = []\<rparr>"

definition queue_run :: "queue_event list \<Rightarrow> downloads" where
  "queue_run events = fold queue_step events no_downloads"

text \<open>
  A run in which a render separates any two calls of the handler: the flag says whether
  a render has taken place since the last call.
\<close>

fun spaced :: "bool \<Rightarrow> queue_event list \<Rightarrow> bool" where
  "spaced fresh [] = True"
| "spaced fresh (Enqueue f # es) = (fresh \<and> spaced False es)"
| "spaced fresh (Render # es) = spaced True es"
| "spaced fresh (e # es) = spaced fresh es"

text \<open>The invariant that such a run keeps: names are unique, at most one callback is
  under way, the items in flight are the ones with a callback under way, and a state
  that was not set since the last render is the queue of that render.\<close>

definition queue_consistent :: "downloads \<Rightarrow> bool" where
  "queue_consistent s \<longleftrightarrow>
     distinct (map nm (downloadQueue s))
     \<and> length (blobRequests s @ saving s) \<le> 1
     \<and> nm ` set (filter in_flight (downloadQueue s)) = set (blobRequests s @ saving s)
     \<and> (\<not> dirty s \<longrightarrow> rendered s = downloadQueue s)"

definition names_rendered :: "downloads \<Rightarrow> bool" where
  "names_rendered s \<longleftrightarrow> map nm (rendered s) = map nm (downloadQueue s)"

definition file_a :: TorrentFile where
  "file_a = \<lparr>file_name = ''a.mkv'', file_length = 700\<rparr>"

definition file_b :: TorrentFile where
  "file_b = \<lparr>file_name = ''b.mkv'', file_length = 800\<rparr>"


section \<open>Live channels (src/components/Player.tsx)\<close>

subsection \<open>The proxied address\<close>

text \<open>
  \<^verbatim>\<open>encodeURIComponent\<close> on the bytes of a well-formed string: the unreserved characters
  stay, every other byte becomes a percent sign and its two upper-case hexadecimal digits.
\<close>

definition unreserved :: string where
  "unreserved =
     ''ABCDEFGHIJKLMNOPQRSTUVWXYZabcdefghijklmnopqrstuvwxyz0123456789-_.!~*()'' @ [CHR 0x27]"

definition hex_digit :: "nat \<Rightarrow> char" where
  "hex_digit n = ''0123456789ABCDEF'' ! n"

definition encode_char :: "char \<Rightarrow> string" where
  "encode_char c =
     (if c \<in> set unreserved then [c]
      else [CHR ''%'', hex_digit (of_char c div 16), hex_digit (of_char c mod 16)])"

definition encodeURIComponent :: "string \<Rightarrow> string" where
  "encodeURIComponent s = concat (map encode_char s)"

definition proxy :: string where
  "proxy = ''https://api.allorigins.win/raw?url=''"

definition proxiedUrl :: "string \<Rightarrow> string" where
  "proxiedUrl originalUrl = proxy @ encodeURIComponent originalUrl"

subsection \<open>Errors of hls.js and the state of the component\<close>

datatype ErrorType = NETWORK_ERROR | MEDIA_ERROR | KEY_SYSTEM_ERROR | MUX_ERROR | OTHER_ERROR

definition MANIFEST_LOAD_ERROR :: string where
  "MANIFEST_LOAD_ERROR = ''manifestLoadError''"

text \<open>The \<^verbatim>\<open>data\<close> of an \<^verbatim>\<open>Hls.Events.ERROR\<close> event.\<close>

record hls_error =
  err_type :: ErrorType
  err_details :: string
  err_fatal :: bool
  err_response :: "(int \<times> string) option"

datatype console_line =
    ErrorLine hls_error
  | ResponseCode int
  | ResponseText string
  | RetryWarning
  | FatalNetwork
  | FatalMedia
  | Unrecoverable

text \<open>An \<^verbatim>\<open>Hls\<close> instance with the source it loads, the \<^verbatim>\<open>isProxyAttempt\<close> that the
  closure of its error handler holds, and the recovery calls made on it.\<close>

record hls_instance =
  source :: string
  isProxyAttempt :: bool
  startLoad_calls :: nat
  recoverMediaError_calls :: nat

text \<open>
  The effect of the component for a channel. \<open>hlsSupported\<close> is \<^verbatim>\<open>Hls.isSupported()\<close>,
  \<open>nativeHls\<close> is the answer of \<^verbatim>\<open>canPlayType\<close>. \<open>hls\<close> is the live instance, \<open>destroyed\<close>
  counts the instances given up, \<open>video_src\<close> is the address set on the element on the
  native path, \<open>loaded\<close> lists the loads made, each with its address and whether it is the
  proxy attempt, and \<open>console\<close> is what was logged.
\<close>

record live_player =
  originalUrl :: string
  hlsSupported :: bool
  nativeHls :: bool
  isMounted :: bool
  hls :: "hls_instance option"
  destroyed :: nat
  video_src :: "string option"
  loaded :: "(string \<times> bool) list"
  console :: "console_line list"

definition attemptLoad :: "string \<Rightarrow> bool \<Rightarrow> live_player \<Rightarrow> live_player" where
  "attemptLoad urlToLoad proxyAttempt s =
     (if \<not> isMounted s then s
      else if hlsSupported s
      then s\<lparr>hls := Some \<lparr>source = urlToLoad, isProxyAttempt = proxyAttempt,
                          startLoad_calls = 0, recoverMediaError_calls = 0\<rparr>,
             destroyed := (case hls s of None \<Rightarrow> destroyed s | Some h \<Rightarrow> Suc (destroyed s)),
             loaded := loaded s @ [(urlToLoad, proxyAttempt)]\<rparr>
      else if nativeHls s
      then s\<lparr>video_src := Some urlToLoad, loaded := loaded s @ [(urlToLoad, proxyAttempt)]\<rparr>
      else s)"

definition log_line :: "console_line \<Rightarrow> live_player \<Rightarrow> live_player" where
  "log_line l s = s\<lparr>console := console s @ [l]\<rparr>"

definition log_error :: "hls_error \<Rightarrow> live_player \<Rightarrow> live_player" where
  "log_error d s =
     (case err_response d of
        None \<Rightarrow> log_line (ErrorLine d) s
      | Some (code, text) \<Rightarrow>
          log_line (ResponseText text) (log_line (ResponseCode code) (log_line (ErrorLine d) s)))"

definition manifest_load_failure :: "hls_error \<Rightarrow> bool" where
  "manifest_load_failure d \<longleftrightarrow>
     err_type d = NETWORK_ERROR \<and> err_details d = MANIFEST_LOAD_ERROR"

text \<open>
  The error handler of the live instance \<open>h\<close>: it logs the error; a manifest load error
  on an instance that is not the proxy attempt starts the proxy attempt and returns;
  otherwise a fatal error gets one recovery call by its type.
\<close>

definition handleError :: "hls_instance \<Rightarrow> hls_error \<Rightarrow> live_player \<Rightarrow> live_player" where
  "handleError h d s =
     (let s1 = log_error d s
      in if manifest_load_failure d \<and> \<not> isProxyAttempt h
         then attemptLoad (proxiedUrl (originalUrl s1)) True (log_line RetryWarning s1)
         else if err_fatal d
         then (case err_type d of
                 NETWORK_ERROR \<Rightarrow>
                   (log_line FatalNetwork s1)
                     \<lparr>hls := Some (h\<lparr>startLoad_calls := Suc (startLoad_calls h)\<rparr>)\<rparr>
               | MEDIA_ERROR \<Rightarrow>
                   (log_line FatalMedia s1)
                     \<lparr>hls := Some (h\<lparr>recoverMediaError_calls := Suc (recoverMediaError_calls h)\<rparr>)\<rparr>
               | _ \<Rightarrow> log_line Unrecoverable s1)
         else s1)"

text \<open>The cleanup of the effect: the instance is destroyed and no load starts any more.\<close>

definition cleanup :: "live_player \<Rightarrow> live_player" where
  "cleanup s =
     s\<lparr>isMounted := False, hls := None,
       destroyed := (case hls s of None \<Rightarrow> destroyed s | Some h \<Rightarrow> Suc (destroyed s))\<rparr>"

text \<open>
  What reaches the component: an error event of the live instance (there is a handler
  only while there is an instance), an error event of the media element itself, for
  which no listener is registered on either path, and the cleanup.
\<close>

datatype live_event = HlsError hls_error | VideoError | Cleanup

fun live_step :: "live_event \<Rightarrow> live_player \<Rightarrow> live_player" where
  "live_step (HlsError d) s = (case hls s of None \<Rightarrow> s | Some h \<Rightarrow> handleError h d s)"
| "live_step VideoError s = s"
| "live_step Cleanup s = cleanup s"

text \<open>The effect for a channel with an element: it starts with the original address.\<close>

definition loadChannel :: "string \<Rightarrow> bool \<Rightarrow> bool \<Rightarrow> live_player" where
  "loadChannel url hlsjs native =
     attemptLoad url False
       \<lparr>originalUrl = url, hlsSupported = hlsjs, nativeHls = native, isMounted = True,
        hls = None, destroyed = 0, video_src = None, loaded = [], console = []\<rparr>"

definition after_errors :: "hls_error list \<Rightarrow> live_player \<Rightarrow> live_player" where
  "after_errors ds s = fold live_step (map HlsError ds) s"

definition manifest_failure :: hls_error where
  "manifest_failure =
     \<lparr>err_type = NETWORK_ERROR, err_details = MANIFEST_LOAD_ERROR, err_fatal = True,
      err_response = Some (0, [])\<rparr>"

definition channel_url :: string where
  "channel_url = ''http://tv.example/live.m3u8''"

text \<open>
  The two states of a channel played through hls.js: on the direct address, with one
  load made, and on the proxied address, with the direct load and the proxy attempt made.
\<close>

definition direct_state :: "string \<Rightarrow> live_player \<Rightarrow> bool" where
  "direct_state url s \<longleftrightarrow>
     isMounted s \<and> hlsSupported s \<and> originalUrl s = url \<and> loaded s = [(url, False)]
     \<and> destroyed s = 0
     \<and> (\<exists>h. hls s = Some h \<and> source h = url \<and> \<not> isProxyAttempt h)"

definition proxied_state :: "string \<Rightarrow> live_player \<Rightarrow> bool" where
  "proxied_state url s \<longleftrightarrow>
     isMounted s \<and> hlsSupported s \<and> originalUrl s = url
     \<and> loaded s = [(url, False), (proxiedUrl url, True)] \<and> destroyed s = 1
     \<and> (\<exists>h. hls s = Some h \<and> source h = proxiedUrl url \<and> isProxyAttempt h)"


section \<open>Properties of the storage functions\<close>

text \<open>
  Claim C9. Reading the recent-magnets list distinguishes three cases: with no stored
  entry it returns the one-element list holding the built-in example magnet; with an
  entry that parses to an array it returns that array unchanged, so a stored empty
  array gives the empty list and not the example; with an entry that is corrupt or
  parses to something that is not an array it returns the empty list.
\<close>

theorem getRecentMagnets_three_cases:
  "(ls RECENT_MAGNETS_KEY = None \<longrightarrow> getRecentMagnets ls = [JStr EXAMPLE_MAGNET])
   \<and> (\<forall>parsed. ls RECENT_MAGNETS_KEY = Some (Json (JArr parsed)) \<longrightarrow> getRecentMagnets ls = parsed)
   \<and> (ls RECENT_MAGNETS_KEY = Some (Json (JArr [])) \<longrightarrow>
        getRecentMagnets ls = [] \<and> getRecentMagnets ls \<noteq> [JStr EXAMPLE_MAGNET])
   \<and> (ls RECENT_MAGNETS_KEY = Some Malformed \<longrightarrow> getRecentMagnets ls = [])
   \<and> (\<forall>v. ls RECENT_MAGNETS_KEY = Some (Json v) \<longrightarrow> \<not> is_array v \<longrightarrow> getRecentMagnets ls = [])"
  by (auto simp: getRecentMagnets_def is_array_def split: json.splits)

theorem getRecentMagnets_three_cases_witness:
  "getRecentMagnets Map.empty = [JStr EXAMPLE_MAGNET]
   \<and> getRecentMagnets [RECENT_MAGNETS_KEY \<mapsto> Json (JArr [JStr ''magnet:?xt=a'', JStr ''magnet:?xt=b''])]
       = [JStr ''magnet:?xt=a'', JStr ''magnet:?xt=b'']
   \<and> getRecentMagnets [RECENT_MAGNETS_KEY \<mapsto> Json (JArr [])] = []
   \<and> getRecentMagnets [RECENT_MAGNETS_KEY \<mapsto> Malformed] = []
   \<and> getRecentMagnets [RECENT_MAGNETS_KEY \<mapsto> Json (JObj [(''a'', JNum 1)])] = []"
  using getRecentMagnets_three_cases [of Map.empty]
    getRecentMagnets_three_cases [of "[RECENT_MAGNETS_KEY \<mapsto> Json (JArr [JStr ''magnet:?xt=a'', JStr ''magnet:?xt=b''])]"]
    getRecentMagnets_three_cases [of "[RECENT_MAGNETS_KEY \<mapsto> Json (JArr [])]"]
    getRecentMagnets_three_cases [of "[RECENT_MAGNETS_KEY \<mapsto> Malformed]"]
    getRecentMagnets_three_cases [of "[RECENT_MAGNETS_KEY \<mapsto> Json (JObj [(''a'', JNum 1)])]"]
  by (simp add: is_array_def)

text \<open>
  Claim C10. A recorded position of 0 cannot be told from no record: for every media
  identity and every storage content, after \<^verbatim>\<open>setPlaybackPosition(identity, 0)\<close>
  (whether it wrote or threw) \<^verbatim>\<open>getPlaybackPosition(identity)\<close> returns null; and
  when the stored item is absent, corrupt or an object the call does write, and the
  written object holds the number 0 under the identity.
\<close>

theorem position_zero_recalled_absent:
  assumes "is_media_id m"
  shows "getPlaybackPosition (storage_after ls (setPlaybackPosition m 0 ls)) m = None
    \<and> (ls PLAYBACK_POSITION_KEY = None \<or> ls PLAYBACK_POSITION_KEY = Some Malformed
           \<or> (\<exists>ps. ls PLAYBACK_POSITION_KEY = Some (Json (JObj ps))) \<longrightarrow>
         (\<exists>ps'. setPlaybackPosition m 0 ls = Inr (ls(PLAYBACK_POSITION_KEY \<mapsto> Json (JObj ps')))
               \<and> map_of ps' m = Some (JNum 0)))"
proof
  show "getPlaybackPosition (storage_after ls (setPlaybackPosition m 0 ls)) m = None"
  proof (cases "ls PLAYBACK_POSITION_KEY")
    case None
    then show ?thesis
      by (simp add: setPlaybackPosition_def storage_after_def getPlaybackPosition_def)
  next
    case (Some it)
    show ?thesis
    proof (cases it)
      case Malformed
      with Some show ?thesis
        by (simp add: setPlaybackPosition_def storage_after_def getPlaybackPosition_def)
    next
      case (Json v)
      with Some show ?thesis
        by (cases v)
           (simp_all add: setPlaybackPosition_def storage_after_def getPlaybackPosition_def
              update_conv')
    qed
  qed
next
  show "ls PLAYBACK_POSITION_KEY = None \<or> ls PLAYBACK_POSITION_KEY = Some Malformed
           \<or> (\<exists>ps. ls PLAYBACK_POSITION_KEY = Some (Json (JObj ps))) \<longrightarrow>
         (\<exists>ps'. setPlaybackPosition m 0 ls = Inr (ls(PLAYBACK_POSITION_KEY \<mapsto> Json (JObj ps')))
               \<and> map_of ps' m = Some (JNum 0))"
    by (auto simp: setPlaybackPosition_def update_conv')
qed

theorem position_zero_recalled_absent_witness:
  "is_media_id ''local-file-a.mp4-10-20''
   \<and> getPlaybackPosition
       (storage_after [PLAYBACK_POSITION_KEY \<mapsto> Json (JObj [(''local-file-a.mp4-10-20'', JNum 42)])]
          (setPlaybackPosition ''local-file-a.mp4-10-20'' 0
             [PLAYBACK_POSITION_KEY \<mapsto> Json (JObj [(''local-file-a.mp4-10-20'', JNum 42)])]))
       ''local-file-a.mp4-10-20'' = None
   \<and> getPlaybackPosition
       [PLAYBACK_POSITION_KEY \<mapsto> Json (JObj [(''local-file-a.mp4-10-20'', JNum 42)])]
       ''local-file-a.mp4-10-20'' = Some (JNum 42)"
proof -
  have m: "is_media_id ''local-file-a.mp4-10-20''"
    by (simp add: is_media_id_def)
  show ?thesis
    using m position_zero_recalled_absent [OF m,
        of "[PLAYBACK_POSITION_KEY \<mapsto> Json (JObj [(''local-file-a.mp4-10-20'', JNum 42)])]"]
    by (simp add: getPlaybackPosition_def)
qed

section \<open>Properties of the player\<close>

subsection \<open>Auxiliary facts\<close>

lemma str_includes_sublist: "str_includes s pat \<longleftrightarrow> sublist pat s"
  by (induction s) (simp_all add: sublist_Cons_right)

lemma media_id_nonempty: "is_media_id m \<Longrightarrow> m \<noteq> []"
  by (auto simp: is_media_id_def)


subsubsection \<open>The double comparison\<close>

lemma round_half_even_nonpos: "y \<le> 0 \<Longrightarrow> round_half_even y \<le> 0"
proof -
  assume y: "y \<le> 0"
  then have f: "\<lfloor>y\<rfloor> \<le> 0" by (simp add: floor_le_iff)
  show ?thesis
  proof (cases "\<lfloor>y\<rfloor> = 0")
    case True
    then have "0 \<le> y" by (metis of_int_0 of_int_floor_le)
    with y have "y = 0" by simp
    then show ?thesis by (simp add: round_half_even_def)
  next
    case False
    with f have "\<lfloor>y\<rfloor> + 1 \<le> 0" by linarith
    with f show ?thesis by (simp add: round_half_even_def Let_def)
  qed
qed

lemma round_double_nonpos: "x \<le> 0 \<Longrightarrow> round_double x \<le> 0"
proof (cases "x = 0")
  case True
  then show ?thesis by (simp add: round_double_def)
next
  case False
  assume "x \<le> 0"
  let ?u = "2 powr (of_int \<lfloor>log 2 \<bar>x\<bar>\<rfloor> - 52) :: real"
  have u: "0 < ?u" by simp
  with \<open>x \<le> 0\<close> have "x / ?u \<le> 0" by (simp add: divide_nonpos_pos)
  then have "round_half_even (x / ?u) \<le> 0" by (rule round_half_even_nonpos)
  then have "of_int (round_half_even (x / ?u)) * ?u \<le> 0"
    using u by (simp add: mult_le_0_iff)
  with False show ?thesis by (simp add: round_double_def Let_def)
qed

lemma round_half_even_gt_even:
  assumes "even n"
  shows "n < round_half_even y \<longleftrightarrow> of_int n + 1 / 2 < y"
proof -
  let ?f = "\<lfloor>y\<rfloor>"
  have fl: "of_int ?f \<le> y" "y < of_int ?f + 1" by linarith+
  show ?thesis
  proof (cases "?f < n")
    case True
    then have "?f + 1 \<le> n" by simp
    then have le: "round_half_even y \<le> n"
      by (auto simp: round_half_even_def Let_def)
    from True have "of_int ?f + 1 \<le> (of_int n :: real)"
      by (metis \<open>?f + 1 \<le> n\<close> of_int_1 of_int_add of_int_le_iff)
    with fl have "y < of_int n" by linarith
    with le show ?thesis by auto
  next
    case False
    then have ge: "n \<le> ?f" by simp
    show ?thesis
    proof (cases "?f = n")
      case True
      then show ?thesis
        using assms fl by (auto simp: round_half_even_def Let_def)
    next
      case False
      with ge have "n < ?f" by simp
      then have "n < round_half_even y"
        by (auto simp: round_half_even_def Let_def)
      moreover from \<open>n < ?f\<close> have "of_int n + 1 \<le> (of_int ?f :: real)"
        by (metis of_int_1 of_int_add of_int_le_iff zless_imp_add1_zle)
      with fl have "of_int n + 1 / 2 < y" by linarith
      ultimately show ?thesis by simp
    qed
  qed
qed

lemma round_double_upper_binade:
  assumes "1 / 2 \<le> x" and "x < 1"
  shows "round_double x = of_int (round_half_even (x * 2 ^ 53)) / 2 ^ 53"
proof -
  have x: "0 < x" using assms by simp
  have fl: "\<lfloor>log 2 x\<rfloor> = - 1"
    using assms x by (subst floor_log_eq_powr_iff) (simp_all add: powr_minus divide_simps)
  have p: "(2::real) powr (- 53) = 1 / 9007199254740992"
    by (simp add: powr_minus_divide)
  show ?thesis
    using x by (simp add: round_double_def Let_def fl p)
qed

lemma double_test_upper_binade:
  assumes "1 / 2 \<le> x" and "x < 1"
  shows "double_095 < round_double x \<longleftrightarrow> 17113678584007885 / 18014398509481984 < x"
proof -
  have "double_095 < round_double x
      \<longleftrightarrow> (8556839292003942 :: real) < of_int (round_half_even (x * 2 ^ 53))"
    by (simp add: round_double_upper_binade [OF assms] double_095_def divide_simps)
  also have "\<dots> \<longleftrightarrow> (8556839292003942 :: int) < round_half_even (x * 2 ^ 53)"
    by (metis of_int_less_iff of_int_numeral)
  also have "\<dots> \<longleftrightarrow> of_int 8556839292003942 + 1 / 2 < x * 2 ^ 53"
    by (rule round_half_even_gt_even) simp
  also have "\<dots> \<longleftrightarrow> 17113678584007885 / 18014398509481984 < x"
    by (simp add: divide_simps mult.commute)
  finally show ?thesis .
qed


lemma round_half_even_bounds:
  "of_int n \<le> y \<Longrightarrow> n \<le> round_half_even y"
  "y \<le> of_int n \<Longrightarrow> round_half_even y \<le> n"
proof -
  let ?f = "\<lfloor>y\<rfloor>"
  have fl: "of_int ?f \<le> y" "y < of_int ?f + 1" by linarith+
  {
    assume "of_int n \<le> y"
    then have "n \<le> ?f" by (simp add: le_floor_iff)
    then show "n \<le> round_half_even y"
      by (auto simp: round_half_even_def Let_def)
  }
  {
    assume y: "y \<le> of_int n"
    show "round_half_even y \<le> n"
    proof (cases "y = of_int n")
      case True
      then show ?thesis by (simp add: round_half_even_def)
    next
      case False
      with y have "y < of_int n" by simp
      then have "?f < n" by (simp add: floor_less_iff)
      then show ?thesis by (auto simp: round_half_even_def Let_def)
    qed
  }
qed

lemma round_double_binade:
  assumes "0 < x"
  shows "2 powr of_int \<lfloor>log 2 x\<rfloor> \<le> round_double x"
    and "round_double x \<le> 2 powr (of_int \<lfloor>log 2 x\<rfloor> + 1)"
proof -
  let ?e = "\<lfloor>log 2 x\<rfloor>"
  let ?u = "2 powr (of_int ?e - 52) :: real"
  have u: "0 < ?u" by simp
  have b: "2 powr of_int ?e \<le> x" "x < 2 powr (of_int ?e + 1)"
    using assms floor_log_eq_powr_iff [of x 2 ?e] by simp_all
  have rd: "round_double x = of_int (round_half_even (x / ?u)) * ?u"
    using assms by (simp add: round_double_def Let_def)
  have lo: "2 powr of_int ?e = of_int (2 ^ 52) * ?u"
    by (simp add: powr_diff)
  have hi: "2 powr (of_int ?e + 1) = of_int (2 ^ 53) * ?u"
    by (simp add: powr_diff powr_add)
  from b(1) have "of_int (2 ^ 52) \<le> x / ?u"
    unfolding lo using u by (simp add: pos_le_divide_eq)
  then have "2 ^ 52 \<le> round_half_even (x / ?u)"
    by (rule round_half_even_bounds(1))
  then have "(of_int (2 ^ 52) :: real) \<le> of_int (round_half_even (x / ?u))"
    by (simp only: of_int_le_iff)
  then show "2 powr of_int ?e \<le> round_double x"
    unfolding lo rd using u by (simp only: mult_le_cancel_right_pos)
  from b(2) have "x / ?u \<le> of_int (2 ^ 53)"
    unfolding hi using u by (simp add: pos_divide_le_eq)
  then have "round_half_even (x / ?u) \<le> 2 ^ 53"
    by (rule round_half_even_bounds(2))
  then have "(of_int (round_half_even (x / ?u)) :: real) \<le> of_int (2 ^ 53)"
    by (simp only: of_int_le_iff)
  then show "round_double x \<le> 2 powr (of_int ?e + 1)"
    unfolding hi rd using u by (simp only: mult_le_cancel_right_pos)
qed

lemma double_test_exact:
  "double_095 < round_double x \<longleftrightarrow> 17113678584007885 / 18014398509481984 < x"
proof -
  have c: "0 < double_095" "double_095 < 1" "1 / 2 < double_095"
    by (simp_all add: double_095_def)
  consider "x \<le> 0" | "0 < x" "x < 1 / 2" | "1 / 2 \<le> x" "x < 1" | "1 \<le> x" by linarith
  then show ?thesis
  proof cases
    case 1
    then have "round_double x \<le> 0" by (rule round_double_nonpos)
    with c 1 show ?thesis by simp
  next
    case 2
    then have "log 2 x < log 2 (1 / 2)" by simp
    then have "log 2 x < - 1" by (simp add: log_divide)
    then have "\<lfloor>log 2 x\<rfloor> < - 1" by (simp add: floor_less_iff)
    then have "\<lfloor>log 2 x\<rfloor> + 1 \<le> - 1" by simp
    then have "of_int \<lfloor>log 2 x\<rfloor> + (1::real) \<le> - 1"
      by (metis of_int_1 of_int_add of_int_le_iff of_int_minus)
    then have "(2::real) powr (of_int \<lfloor>log 2 x\<rfloor> + 1) \<le> 2 powr (- 1)"
      by (simp only: powr_le_cancel_iff semiring_norm)
    also have "\<dots> = 1 / 2" by (simp add: powr_minus_divide)
    finally have "round_double x \<le> 1 / 2"
      using round_double_binade(2) [OF 2(1)] by simp
    with c 2 show ?thesis by simp
  next
    case 3
    then show ?thesis by (rule double_test_upper_binade)
  next
    case 4
    then have x: "0 < x" by simp
    from 4 have "0 \<le> log 2 x" by simp
    then have "0 \<le> \<lfloor>log 2 x\<rfloor>" by simp
    then have "(0::real) \<le> of_int \<lfloor>log 2 x\<rfloor>" by simp
    then have "(2::real) powr 0 \<le> 2 powr of_int \<lfloor>log 2 x\<rfloor>"
      by (simp only: powr_le_cancel_iff semiring_norm)
    then have "1 \<le> round_double x"
      using round_double_binade(1) [OF x] by simp
    with c 4 show ?thesis by simp
  qed
qed

text \<open>
  The test \<^verbatim>\<open>time / video.duration > 0.95\<close> in exact terms: the rounded quotient is above
  the double 0.95 exactly when the exact quotient is above the midpoint between that
  double and the next one.
\<close>

lemma ratio_above_95_exact:
  "ratio_above_95 t (Seconds d) \<longleftrightarrow> 17113678584007885 / 18014398509481984 < t / d"
  by (simp add: ratio_above_95_def double_test_exact)


subsubsection \<open>Storage and timer\<close>








lemma first_later_is_least:
  assumes "sorted (map timestamp cs)" "find (\<lambda>c. x < timestamp c) cs = Some e" "c \<in> set cs" "x < timestamp c"
  shows "timestamp e \<le> timestamp c"
proof -
  from assms(2) obtain i where i: "i < length cs" "e = cs ! i" "\<forall>j<i. \<not> x < timestamp (cs ! j)"
    by (auto simp: find_Some_iff)
  from assms(3) obtain n where n: "n < length cs" "c = cs ! n"
    by (auto simp: in_set_conv_nth)
  have "i \<le> n" using i(3) n assms(4) by (meson not_le)
  then have "map timestamp cs ! i \<le> map timestamp cs ! n"
    using assms(1) n(1) by (simp add: sorted_iff_nth_mono del: nth_map)
  then show ?thesis using i n \<open>i \<le> n\<close> by simp
qed


lemma intro_window_open:
  assumes "sorted (map timestamp cs)"
  shows "isInIntroWindow cs t \<longleftrightarrow> intro_window False cs t"
proof
  assume w: "isInIntroWindow cs t"
  then obtain intro e where ie: "find is_intro cs = Some intro"
      "find (\<lambda>c. timestamp intro < timestamp c) cs = Some e" "timestamp intro < t" "t < timestamp e"
    by (auto simp: isInIntroWindow_def find_intro_def find_introEnd_def split: option.splits)
  from ie(1) obtain k where k: "k < length cs" "is_intro (cs ! k)" "intro = cs ! k" "\<forall>j<k. \<not> is_intro (cs ! j)"
    by (auto simp: find_Some_iff)
  have e: "e \<in> set cs" "timestamp intro < timestamp e"
    using ie(2) by (auto simp: find_Some_iff)
  have least: "\<forall>c\<in>set cs. timestamp intro < timestamp c \<longrightarrow> timestamp e \<le> timestamp c"
    using first_later_is_least [OF assms ie(2)] by blast
  have "\<exists>nxt\<in>set cs.
           timestamp (cs ! k) < timestamp nxt \<and>
           (\<forall>c\<in>set cs. timestamp (cs ! k) < timestamp c \<longrightarrow> timestamp nxt \<le> timestamp c) \<and>
           timestamp (cs ! k) < t \<and> t < timestamp nxt"
    using e ie(3,4) least k(3) by (intro bexI [of _ e]) auto
  with k show "intro_window False cs t"
    unfolding intro_window_def by (intro exI [of _ k]) simp
next
  assume "intro_window False cs t"
  then obtain k nxt where k: "k < length cs" "is_intro (cs ! k)" "\<forall>j<k. \<not> is_intro (cs ! j)"
     and n: "nxt \<in> set cs" "timestamp (cs ! k) < timestamp nxt"
        "\<forall>c\<in>set cs. timestamp (cs ! k) < timestamp c \<longrightarrow> timestamp nxt \<le> timestamp c"
        "timestamp (cs ! k) < t" "t < timestamp nxt"
    unfolding intro_window_def by auto
  have f: "find is_intro cs = Some (cs ! k)"
    using k by (auto simp: find_Some_iff)
  obtain e where e: "find (\<lambda>c. timestamp (cs ! k) < timestamp c) cs = Some e"
    using n(1,2) by (cases "find (\<lambda>c. timestamp (cs ! k) < timestamp c) cs") (auto simp: find_None_iff)
  then have "e \<in> set cs" "timestamp (cs ! k) < timestamp e"
    by (auto simp: find_Some_iff)
  then have "timestamp nxt \<le> timestamp e" using n(3) by blast
  with f e n show "isInIntroWindow cs t"
    by (simp add: isInIntroWindow_def find_intro_def find_introEnd_def)
qed


lemmas demo_defs = demo_player_def demo_id_def playbackReaches_def onTimeUpdate_def timerFires_def
  writeBody_def setPlaybackPosition_def clearPlaybackPosition_def getPlaybackPosition_def
  savedPositionEffect_def handleResumePlayback_def resumeOffered_def video_play_def
  PLAYBACK_POSITION_KEY_def


subsection \<open>Skip intro\<close>

text \<open>
  Claim C2, as amended. For every chapter list ascending by timestamp and every time
  \<open>t\<close>, playback is inside the intro window exactly when the list has a first chapter
  whose name holds "intro" in any case and a chapter strictly after it by timestamp, and
  \<open>t\<close> lies strictly between the intro chapter's timestamp and the next chapter's
  timestamp: the window is open at both ends. The time-update handler sets the skip
  button to that condition. When no chapter follows the intro chapter there is no window
  and the skip action does nothing.
\<close>

theorem skip_intro_window:
  assumes "sorted (map timestamp cs)"
  shows "(isInIntroWindow cs t \<longleftrightarrow> intro_window False cs t)
    \<and> (\<forall>p v. chapters p = Some cs \<and> videoRef p = Some v \<longrightarrow>
          showSkipIntro (playbackReaches t p) = isInIntroWindow cs t)
    \<and> (\<forall>intro. find_intro cs = Some intro \<and> (\<forall>c\<in>set cs. \<not> timestamp intro < timestamp c) \<longrightarrow>
          \<not> isInIntroWindow cs t \<and> (\<forall>p. chapters p = Some cs \<longrightarrow> handleSkipIntro p = p))"
proof (intro conjI allI impI)
  show "isInIntroWindow cs t \<longleftrightarrow> intro_window False cs t"
    using assms by (rule intro_window_open)
next
  fix p :: player and v :: video
  assume "chapters p = Some cs \<and> videoRef p = Some v"
  then show "showSkipIntro (playbackReaches t p) = isInIntroWindow cs t"
    by (simp add: playbackReaches_def onTimeUpdate_def Let_def)
next
  fix intro
  assume a: "find_intro cs = Some intro \<and> (\<forall>c\<in>set cs. \<not> timestamp intro < timestamp c)"
  then have e: "find_introEnd cs = None"
    by (simp add: find_introEnd_def find_None_iff)
  with a show "\<not> isInIntroWindow cs t"
    by (simp add: isInIntroWindow_def)
  fix p :: player
  assume "chapters p = Some cs"
  with e show "handleSkipIntro p = p"
    by (simp add: handleSkipIntro_def split: option.splits)
qed

text \<open>
  Claim C2 as stated takes the window half-open, with the intro chapter's own timestamp
  inside. On the specification's example the time 0 is in that window, and the handler
  does not show the button there: its test is \<^verbatim>\<open>time > intro.timestamp\<close>.
\<close>

theorem intro_start_excluded_counterexample:
  "intro_window True spec_chapters 0 \<and> \<not> isInIntroWindow spec_chapters 0"
proof
  show "intro_window True spec_chapters 0"
    unfolding intro_window_def
    by (rule exI [of _ 0])
       (simp add: spec_chapters_def is_intro_def toLowerCase_def toLowerCase_char_def)
  show "\<not> isInIntroWindow spec_chapters 0"
    by (simp add: isInIntroWindow_def find_intro_def find_introEnd_def spec_chapters_def
        is_intro_def toLowerCase_def toLowerCase_char_def)
qed

theorem skip_intro_window_witness:
  "sorted (map timestamp spec_chapters)
   \<and> isInIntroWindow spec_chapters 45 \<and> intro_window False spec_chapters 45
   \<and> \<not> isInIntroWindow spec_chapters 90 \<and> \<not> intro_window False spec_chapters 90
   \<and> \<not> isInIntroWindow spec_chapters 1199 \<and> \<not> intro_window False spec_chapters 1199"
proof -
  have s: "sorted (map timestamp spec_chapters)"
    by (simp add: spec_chapters_def)
  have w: "isInIntroWindow spec_chapters 45" "\<not> isInIntroWindow spec_chapters 90"
    "\<not> isInIntroWindow spec_chapters 1199"
    by (simp_all add: isInIntroWindow_def find_intro_def find_introEnd_def spec_chapters_def
        is_intro_def toLowerCase_def toLowerCase_char_def)
  show ?thesis
    using s w skip_intro_window [OF s, of 45] skip_intro_window [OF s, of 90]
      skip_intro_window [OF s, of 1199]
    by blast
qed

subsection \<open>Resume prompt\<close>

text \<open>
  Claim C4, as amended. When the position cache recalls a saved time above 5 seconds
  for the current media identity, the resume offer is presented. Choosing "resume" sets
  the playback position to the saved time; choosing "restart" performs no seek and
  leaves the playback position where it is. Either choice discards the offer and asks
  the element to play, and a later choice moves nothing.
\<close>

theorem resume_flow:
  assumes "is_media_id m" and "mediaId p = Some m"
    and "getPlaybackPosition (localStorage p) m = Some (JNum t)" and "5 < t"
  shows "resumeOffered (savedPositionEffect p) = Some t
    \<and> (\<forall>q v. resumeOffered q = Some t \<and> videoRef q = Some v \<longrightarrow>
          map_option v_currentTime (videoRef (handleResumePlayback True q)) = Some t
        \<and> map_option v_currentTime (videoRef (handleResumePlayback False q)) = Some (v_currentTime v)
        \<and> (\<forall>r. resumeOffered (handleResumePlayback r q) = None
              \<and> map_option play_calls (videoRef (handleResumePlayback r q)) = Some (Suc (play_calls v))
              \<and> (\<forall>r'. map_option v_currentTime (videoRef (handleResumePlayback r' (handleResumePlayback r q)))
                     = map_option v_currentTime (videoRef (handleResumePlayback r q)))))"
proof (intro conjI allI impI)
  have "m \<noteq> []" using assms(1) by (rule media_id_nonempty)
  with assms(2-4) show "resumeOffered (savedPositionEffect p) = Some t"
    by (simp add: savedPositionEffect_def resumeOffered_def)
next
  fix q :: player and v :: video
  assume "resumeOffered q = Some t \<and> videoRef q = Some v"
  then show "map_option v_currentTime (videoRef (handleResumePlayback True q)) = Some t"
    by (simp add: handleResumePlayback_def)
next
  fix q :: player and v :: video
  assume "resumeOffered q = Some t \<and> videoRef q = Some v"
  then show "map_option v_currentTime (videoRef (handleResumePlayback False q)) = Some (v_currentTime v)"
    by (simp add: handleResumePlayback_def)
next
  fix q :: player and v :: video and r
  assume "resumeOffered q = Some t \<and> videoRef q = Some v"
  then show "resumeOffered (handleResumePlayback r q) = None"
    by (simp add: handleResumePlayback_def resumeOffered_def)
next
  fix q :: player and v :: video and r
  assume "resumeOffered q = Some t \<and> videoRef q = Some v"
  then show "map_option play_calls (videoRef (handleResumePlayback r q)) = Some (Suc (play_calls v))"
    by (simp add: handleResumePlayback_def)
next
  fix q :: player and v :: video and r r'
  assume "resumeOffered q = Some t \<and> videoRef q = Some v"
  then show "map_option v_currentTime (videoRef (handleResumePlayback r' (handleResumePlayback r q)))
                     = map_option v_currentTime (videoRef (handleResumePlayback r q))"
    by (simp add: handleResumePlayback_def resumeOffered_def)
qed

text \<open>
  Claim C4 as stated has "restart" seek to 0. With 42 on record the offer is shown; when
  playback has reached 12 seconds by the time the user declines, the position stays 12.
\<close>

theorem restart_does_not_seek_counterexample:
  "getPlaybackPosition (localStorage demo_player) demo_id = Some (JNum 42)
   \<and> resumeOffered (playbackReaches 12 (savedPositionEffect demo_player)) = Some 42
   \<and> map_option v_currentTime
        (videoRef (handleResumePlayback False (playbackReaches 12 (savedPositionEffect demo_player))))
      = Some 12"
  by (simp add: demo_defs)

theorem resume_flow_witness:
  "is_media_id demo_id \<and> mediaId demo_player = Some demo_id
   \<and> getPlaybackPosition (localStorage demo_player) demo_id = Some (JNum 42) \<and> (5::real) < 42
   \<and> resumeOffered (savedPositionEffect demo_player) = Some 42
   \<and> map_option v_currentTime (videoRef (handleResumePlayback True (savedPositionEffect demo_player))) = Some 42
   \<and> resumeOffered (handleResumePlayback True (savedPositionEffect demo_player)) = None"
proof -
  have h: "is_media_id demo_id" "mediaId demo_player = Some demo_id"
    "getPlaybackPosition (localStorage demo_player) demo_id = Some (JNum 42)" "(5::real) < 42"
    by (simp_all add: is_media_id_def demo_defs)
  have v: "videoRef (savedPositionEffect demo_player)
      = Some \<lparr>v_currentTime = 0, v_duration = Seconds 100, play_calls = 0\<rparr>"
    by (simp add: demo_defs)
  from resume_flow [OF h] have o: "resumeOffered (savedPositionEffect demo_player) = Some 42"
    and k: "\<And>q v. resumeOffered q = Some 42 \<and> videoRef q = Some v \<Longrightarrow>
          map_option v_currentTime (videoRef (handleResumePlayback True q)) = Some 42
        \<and> resumeOffered (handleResumePlayback True q) = None"
    by blast+
  from k [of "savedPositionEffect demo_player", OF conjI [OF o v]] h o
  show ?thesis by simp
qed

subsection \<open>Position cache\<close>











text \<open>
  The comparison is one of doubles: a time whose exact ratio to the duration is above
  19/20, but so little that the quotient rounds to the double 0.95, is recorded.
\<close>

lemma rounding_gap_recorded:
  "(19 / 20 :: real) < (8024309746690635 / 140737488355328) / (8446641838621721 / 140737488355328)
   \<and> \<not> ratio_above_95 (8024309746690635 / 140737488355328)
          (Seconds (8446641838621721 / 140737488355328))"
  by (simp add: ratio_above_95_exact)


section \<open>Properties of the subtitle registry\<close>

subsection \<open>Auxiliary facts\<close>

lemma map_of_fold_update:
  "map_of (fold (\<lambda>(k, v) m. AList.update k v m) es acc) = map_of acc ++ map_of (rev es)"
proof (induction es arbitrary: acc)
  case Nil
  show ?case by simp
next
  case (Cons e es)
  obtain k v where e: "e = (k, v)" by (cases e)
  have "map_of (fold (\<lambda>(k, v) m. AList.update k v m) (e # es) acc)
        = map_of (AList.update k v acc) ++ map_of (rev es)"
    using Cons.IH [of "AList.update k v acc"] e by simp
  also have "\<dots> = map_of acc ++ map_of (rev (e # es))"
    by (simp add: e update_conv' map_add_upd_left fun_eq_iff map_add_def split: option.splits)
  finally show ?case .
qed

lemma distinct_fold_update:
  "distinct (map fst acc) \<Longrightarrow> distinct (map fst (fold (\<lambda>(k, v) m. AList.update k v m) es acc))"
  by (induction es arbitrary: acc) (auto simp: distinct_update)

lemma map_of_keyed: "map_of (map (\<lambda>x. (f x, x)) xs) k = find (\<lambda>x. f x = k) xs"
  by (induction xs) auto

lemma Map_values_keyed:
  "distinct (map f (Map_values (map (\<lambda>x. (f x, x)) xs)))
   \<and> (t \<in> set (Map_values (map (\<lambda>x. (f x, x)) xs)) \<longleftrightarrow> find (\<lambda>x. f x = f t) (rev xs) = Some t)"
proof -
  let ?al = "fold (\<lambda>(k, v) m. AList.update k v m) (map (\<lambda>x. (f x, x)) xs) []"
  have d: "distinct (map fst ?al)" by (rule distinct_fold_update) simp
  have m: "map_of ?al k = find (\<lambda>x. f x = k) (rev xs)" for k
    by (simp add: map_of_fold_update rev_map map_of_keyed)
  have key: "(k, v) \<in> set ?al \<Longrightarrow> f v = k" for k v
  proof -
    assume "(k, v) \<in> set ?al"
    then have "map_of ?al k = Some v" using d by simp
    then have "find (\<lambda>x. f x = k) (rev xs) = Some v" by (simp add: m)
    then show "f v = k" by (auto simp: find_Some_iff)
  qed
  have "map f (map snd ?al) = map fst ?al"
    using key by (auto simp: comp_def intro!: map_cong [OF refl])
  then have "distinct (map f (map snd ?al))"
    using d by (simp only:)
  then have 1: "distinct (map f (Map_values (map (\<lambda>x. (f x, x)) xs)))"
    by (simp only: Map_values_def)
  have "t \<in> set (map snd ?al) \<longleftrightarrow> (f t, t) \<in> set ?al"
    using key by (force simp: image_iff)
  also have "\<dots> \<longleftrightarrow> map_of ?al (f t) = Some t" using d by simp
  also have "\<dots> \<longleftrightarrow> find (\<lambda>x. f x = f t) (rev xs) = Some t" by (simp add: m)
  finally have 2: "t \<in> set (Map_values (map (\<lambda>x. (f x, x)) xs))
      \<longleftrightarrow> find (\<lambda>x. f x = f t) (rev xs) = Some t"
    by (simp only: Map_values_def)
  from 1 2 show ?thesis ..
qed

lemmas track_defs = english_external_def deutsch_external_def english_embedded_def
  english_textTrack_def deutsch_textTrack_def handleTracks_def embeddedTracks_def
  embedded_src_def Map_values_def showActiveTrack_def isTrackActive_def

lemma decimal_0: "decimal 0 = ''0''" and decimal_1: "decimal 1 = ''1''"
  by (simp_all add: decimal.simps)

lemma find_Some_set: "find P xs = Some x \<Longrightarrow> x \<in> set xs \<and> P x"
  by (induction xs) (auto split: if_splits)

lemma find_app:
  "find P (xs @ ys) = (case find P xs of None \<Rightarrow> find P ys | Some x \<Rightarrow> Some x)"
  by (induction xs) auto

lemma remember_fold:
  "fold (\<lambda>cue m. m(cue \<mapsto> H cue)) cs M c = (if c \<in> set cs then Some (H c) else M c)"
  by (induction cs arbitrary: M) auto

lemma shift_fold:
  "fold (\<lambda>cue h. case M cue of None \<Rightarrow> h | Some original \<Rightarrow> h(cue := f original)) cs h c
     = (if c \<in> set cs then (case M c of None \<Rightarrow> h c | Some original \<Rightarrow> f original) else h c)"
  by (induction cs arbitrary: h) (auto split: option.splits)

lemma originals_applyOffset:
  "originalCueTimesRef (applyOffset cs off s) c
     = (if first_unknown cs s \<and> c \<in> set cs then Some (cueTimes s c) else originalCueTimesRef s c)"
  by (simp add: applyOffset_def first_unknown_def Let_def remember_fold)

lemma cueTimes_applyOffset:
  "cueTimes (applyOffset cs off s) c
     = (if c \<in> set cs
        then (case originalCueTimesRef (applyOffset cs off s) c of
                None \<Rightarrow> cueTimes s c
              | Some original \<Rightarrow> shifted original off)
        else cueTimes s c)"
  by (simp add: applyOffset_def Let_def shift_fold)

lemma known_after: "cs \<noteq> [] \<Longrightarrow> \<not> first_unknown cs (applyOffset cs off s)"
  by (cases cs) (auto simp: first_unknown_def originals_applyOffset)

lemma originals_kept:
  "originalCueTimesRef (applyOffset cs off' (applyOffset cs off s)) = originalCueTimesRef (applyOffset cs off s)"
proof (cases cs)
  case Nil
  then show ?thesis by (simp add: applyOffset_def)
next
  case (Cons c cs')
  then have "\<not> first_unknown cs (applyOffset cs off s)" by (simp add: known_after)
  then show ?thesis by (simp add: fun_eq_iff originals_applyOffset)
qed

lemma applyOffset_absorbs:
  "applyOffset cs off' (applyOffset cs off s)
     = \<lparr>originalCueTimesRef = originalCueTimesRef (applyOffset cs off s),
        cueTimes = (\<lambda>c. if c \<in> set cs
                        then (case originalCueTimesRef (applyOffset cs off s) c of
                                None \<Rightarrow> cueTimes s c
                              | Some original \<Rightarrow> shifted original off')
                        else cueTimes s c)\<rparr>"
proof -
  have "cueTimes (applyOffset cs off' (applyOffset cs off s)) c
      = (if c \<in> set cs
         then (case originalCueTimesRef (applyOffset cs off s) c of
                 None \<Rightarrow> cueTimes s c
               | Some original \<Rightarrow> shifted original off')
         else cueTimes s c)" for c
    by (simp add: cueTimes_applyOffset [of cs off' "applyOffset cs off s"] originals_kept)
       (simp add: cueTimes_applyOffset split: option.splits)
  then show ?thesis
    by (intro subtitles.equality) (simp_all add: originals_kept fun_eq_iff)
qed

lemma applyOffset_idem: "applyOffset cs off (applyOffset cs off s) = applyOffset cs off s"
proof -
  have "cueTimes (applyOffset cs off s) c
      = (if c \<in> set cs
         then (case originalCueTimesRef (applyOffset cs off s) c of
                 None \<Rightarrow> cueTimes s c
               | Some original \<Rightarrow> shifted original off)
         else cueTimes s c)" for c
    by (rule cueTimes_applyOffset)
  then show ?thesis
    unfolding applyOffset_absorbs
    by (intro subtitles.equality) (simp_all add: fun_eq_iff)
qed

lemma originals_after_history:
  "originalCueTimesRef (fold (applyOffset cs) offs (applyOffset cs off s))
     = originalCueTimesRef (applyOffset cs off s)"
proof (induction offs arbitrary: off s)
  case Nil
  show ?case by simp
next
  case (Cons o' offs)
  have "originalCueTimesRef (fold (applyOffset cs) (o' # offs) (applyOffset cs off s))
      = originalCueTimesRef (fold (applyOffset cs) offs (applyOffset cs o' (applyOffset cs off s)))"
    by simp
  also have "\<dots> = originalCueTimesRef (applyOffset cs o' (applyOffset cs off s))"
    by (rule Cons.IH)
  also have "\<dots> = originalCueTimesRef (applyOffset cs off s)"
    by (rule originals_kept)
  finally show ?case .
qed

lemma history_is_application:
  "\<exists>off' s'. fold (applyOffset cs) offs (applyOffset cs off s) = applyOffset cs off' s'"
proof (induction offs arbitrary: off s)
  case Nil
  show ?case by auto
next
  case (Cons o' offs)
  show ?case using Cons.IH [of o' "applyOffset cs off s"] by simp
qed

lemma shifted_0: "shifted original 0 = original"
  by (simp add: shifted_def)


subsection \<open>Merging\<close>

text \<open>
  Claim C1, as amended. The merged list of available tracks is keyed by label: its
  labels are pairwise distinct, every label of an external or embedded track has an
  entry, and the entry of a label is the last track with that label in the order
  external tracks first, embedded tracks after. So on a label collision between an
  external and an embedded track the embedded track takes precedence: an entry whose
  label is carried by an embedded track is an embedded track.
\<close>

theorem merged_tracks_last_wins:
  "distinct (map label (handleTracks ext tts))
   \<and> (\<forall>t. t \<in> set (handleTracks ext tts) \<longleftrightarrow>
          find (\<lambda>x. label x = label t) (rev (ext @ embeddedTracks tts)) = Some t)
   \<and> (\<forall>t\<in>set (handleTracks ext tts).
          label t \<in> label ` set (embeddedTracks tts) \<longrightarrow> t \<in> set (embeddedTracks tts))
   \<and> (\<forall>l\<in>label ` set (ext @ embeddedTracks tts). \<exists>t\<in>set (handleTracks ext tts). label t = l)"
proof -
  let ?emb = "embeddedTracks tts"
  let ?av = "handleTracks ext tts"
  have av: "?av = Map_values (map (\<lambda>x. (label x, x)) (ext @ ?emb))"
    by (simp add: handleTracks_def)
  have 1: "distinct (map label ?av)"
    unfolding av using Map_values_keyed [of label "ext @ ?emb"] by blast
  have 2: "t \<in> set ?av \<longleftrightarrow> find (\<lambda>x. label x = label t) (rev (ext @ ?emb)) = Some t" for t
    unfolding av using Map_values_keyed [of label "ext @ ?emb" t] by blast
  have 3: "t \<in> set ?emb" if t: "t \<in> set ?av" and l: "label t \<in> label ` set ?emb" for t
  proof -
    from l obtain e where "e \<in> set (rev ?emb)" "label e = label t" by auto
    then obtain e' where e': "find (\<lambda>x. label x = label t) (rev ?emb) = Some e'"
      by (cases "find (\<lambda>x. label x = label t) (rev ?emb)") (auto simp: find_None_iff)
    from t have "find (\<lambda>x. label x = label t) (rev ?emb @ rev ext) = Some t"
      by (simp add: 2)
    with e' have "e' = t" by (simp add: find_app)
    moreover from e' have "e' \<in> set (rev ?emb)" by (auto dest: find_Some_set)
    ultimately show ?thesis by simp
  qed
  have 4: "\<exists>t\<in>set ?av. label t = l" if "l \<in> label ` set (ext @ ?emb)" for l
  proof -
    from that obtain e where "e \<in> set (rev (ext @ ?emb))" "label e = l" by auto
    then obtain t where t: "find (\<lambda>x. label x = l) (rev (ext @ ?emb)) = Some t"
      by (cases "find (\<lambda>x. label x = l) (rev (ext @ ?emb))") (auto simp: find_None_iff)
    then have lt: "label t = l" by (auto simp: find_Some_iff)
    with t have "t \<in> set ?av" by (simp add: 2)
    with lt show ?thesis by blast
  qed
  from 1 2 3 4 show ?thesis by blast
qed

text \<open>
  Claim C1 as stated gives precedence to the external track. With an external track and
  an embedded track both labelled English, the merged list holds the embedded one at
  the place of the external one, which is gone.
\<close>

theorem external_overridden_counterexample:
  "label english_external = tt_label english_textTrack
   \<and> handleTracks [english_external, deutsch_external] [english_textTrack]
       = [english_embedded, deutsch_external]
   \<and> english_external \<notin> set (handleTracks [english_external, deutsch_external] [english_textTrack])"
  by (simp add: track_defs decimal_0)

theorem merged_tracks_last_wins_witness:
  "english_embedded \<in> set (handleTracks [english_external, deutsch_external] [english_textTrack])
   \<and> label english_embedded \<in> label ` set (embeddedTracks [english_textTrack])
   \<and> english_embedded \<in> set (embeddedTracks [english_textTrack])
   \<and> deutsch_external \<in> set (handleTracks [english_external, deutsch_external] [english_textTrack])"
  using merged_tracks_last_wins [of "[english_external, deutsch_external]" "[english_textTrack]"]
  by (simp add: track_defs decimal_0)

subsection \<open>Visibility\<close>




subsection \<open>Offset\<close>

text \<open>
  While the cue list of the track stays the same, offset application is idempotent and
  not cumulative. Applying offset \<open>off\<close> to the cues twice gives the same state as
  applying it once. Every cue of the list whose original timing is in the registry shows
  original plus \<open>off\<close>, after one application as after two; and after any further offsets
  applied to the same list, applying offset 0 gives it its original start and end times
  exactly. On the first encounter of the list the registry remembers the timings the
  cues have then.
\<close>

lemma same_cues_idempotent_and_restoring:
  "applyOffset cs off (applyOffset cs off s) = applyOffset cs off s
   \<and> (\<forall>c\<in>set cs. \<forall>original. originalCueTimesRef (applyOffset cs off s) c = Some original \<longrightarrow>
          cueTimes (applyOffset cs off s) c = shifted original off
        \<and> cueTimes (applyOffset cs off (applyOffset cs off s)) c = shifted original off
        \<and> (\<forall>offs. cueTimes (applyOffset cs 0 (fold (applyOffset cs) offs (applyOffset cs off s))) c
                    = original))
   \<and> (first_unknown cs s \<longrightarrow>
         (\<forall>c\<in>set cs. originalCueTimesRef (applyOffset cs off s) c = Some (cueTimes s c)))"
proof (intro conjI ballI allI impI)
  show "applyOffset cs off (applyOffset cs off s) = applyOffset cs off s"
    by (rule applyOffset_idem)
next
  fix c original
  assume c: "c \<in> set cs" and o: "originalCueTimesRef (applyOffset cs off s) c = Some original"
  then show 1: "cueTimes (applyOffset cs off s) c = shifted original off"
    by (simp add: cueTimes_applyOffset)
  then show "cueTimes (applyOffset cs off (applyOffset cs off s)) c = shifted original off"
    by (simp add: applyOffset_idem)
  fix offs
  obtain off' s' where h: "fold (applyOffset cs) offs (applyOffset cs off s) = applyOffset cs off' s'"
    using history_is_application by blast
  have "originalCueTimesRef (applyOffset cs 0 (applyOffset cs off' s')) c = Some original"
    using o originals_after_history [of cs offs off s] by (simp add: originals_kept h)
  with c have "cueTimes (applyOffset cs 0 (applyOffset cs off' s')) c = shifted original 0"
    by (simp add: cueTimes_applyOffset [of cs 0 "applyOffset cs off' s'"])
  then show "cueTimes (applyOffset cs 0 (fold (applyOffset cs) offs (applyOffset cs off s))) c = original"
    by (simp add: h shifted_0)
next
  fix c
  assume "first_unknown cs s" "c \<in> set cs"
  then show "originalCueTimesRef (applyOffset cs off s) c = Some (cueTimes s c)"
    by (simp add: originals_applyOffset)
qed

lemma same_cues_example:
  "(2::nat) \<in> set [1, 2] \<and> first_unknown [1, 2] fresh_subtitles
   \<and> cueTimes (applyOffset [1, 2] 3 fresh_subtitles) 2 = \<lparr>startTime = 23, endTime = 28\<rparr>
   \<and> cueTimes (applyOffset [1, 2] 3 (applyOffset [1, 2] 3 fresh_subtitles)) 2
       = \<lparr>startTime = 23, endTime = 28\<rparr>
   \<and> cueTimes (applyOffset [1, 2] 0
         (fold (applyOffset [1, 2]) [5, - 2] (applyOffset [1, 2] 3 fresh_subtitles))) 2
       = \<lparr>startTime = 20, endTime = 25\<rparr>"
proof -
  let ?cs = "[1, 2] :: cue list"
  note t = same_cues_idempotent_and_restoring [of ?cs 3 fresh_subtitles]
  have f: "first_unknown ?cs fresh_subtitles"
    by (simp add: first_unknown_def fresh_subtitles_def)
  have c: "(2::nat) \<in> set ?cs" by simp
  from t f c have o: "originalCueTimesRef (applyOffset ?cs 3 fresh_subtitles) 2
      = Some (cueTimes fresh_subtitles 2)"
    by blast
  from t c o have 1: "cueTimes (applyOffset ?cs 3 fresh_subtitles) 2
      = shifted (cueTimes fresh_subtitles 2) 3"
    and 2: "cueTimes (applyOffset ?cs 3 (applyOffset ?cs 3 fresh_subtitles)) 2
      = shifted (cueTimes fresh_subtitles 2) 3"
    and 3: "\<And>offs. cueTimes (applyOffset ?cs 0
         (fold (applyOffset ?cs) offs (applyOffset ?cs 3 fresh_subtitles))) 2
       = cueTimes fresh_subtitles 2"
    by blast+
  have v: "cueTimes fresh_subtitles 2 = \<lparr>startTime = 20, endTime = 25\<rparr>"
    by (simp add: fresh_subtitles_def)
  show ?thesis
    using f 1 2 3 [of "[5, - 2]"] by (simp add: v shifted_def)
qed

text \<open>
  Claim C6. The claim: for every cue whose original timing was remembered on first
  encounter, applying an offset twice gives the timings of applying it once, original
  plus offset, and applying offset 0 restores the original timings whatever was applied
  before. \<^verbatim>\<open>applyOffset\<close> looks for the first cue of the track only: when the registry
  does not have it, the current timings of all cues of the track are entered, also of
  the cues that have an entry. Cues 1 and 2 are shifted by 3 seconds, and the registry
  remembers 20 to 25 for cue 2, which now shows 23 to 28. The track then gains the
  earlier cue 3, which becomes its first cue. Offset 0 leaves cue 2 at 23 to 28, and the
  registry now holds 23 to 28 as its original; offset 3 again, instead of offset 0,
  moves it to 26 to 31.
\<close>

theorem changed_cue_list_overwrites_original:
  "originalCueTimesRef (applyOffset [1, 2] 3 fresh_subtitles) 2
     = Some \<lparr>startTime = 20, endTime = 25\<rparr>
   \<and> cueTimes (applyOffset [1, 2] 3 fresh_subtitles) 2 = \<lparr>startTime = 23, endTime = 28\<rparr>
   \<and> cueTimes (applyOffset [3, 1, 2] 0 (applyOffset [1, 2] 3 fresh_subtitles)) 2
       = \<lparr>startTime = 23, endTime = 28\<rparr>
   \<and> originalCueTimesRef (applyOffset [3, 1, 2] 0 (applyOffset [1, 2] 3 fresh_subtitles)) 2
       = Some \<lparr>startTime = 23, endTime = 28\<rparr>
   \<and> cueTimes (applyOffset [3, 1, 2] 3 (applyOffset [1, 2] 3 fresh_subtitles)) 2
       = \<lparr>startTime = 26, endTime = 31\<rparr>"
  by (simp add: applyOffset_def first_unknown_def fresh_subtitles_def shifted_def)

section \<open>The download queue: single flight and enqueueing\<close>

text \<open>
  Every step keeps the names of the queue; an update by name puts into flight, or takes
  out of flight, exactly the items of that name.
\<close>

lemma names_update_named:
  "(\<And>i. item_file (f i) = item_file i) \<Longrightarrow> map nm (update_named n f q) = map nm q"
  by (simp add: update_named_def)

lemma in_flight_marked:
  assumes "\<And>i. item_file (f i) = item_file i" and "\<And>i. in_flight (f i)"
  shows "nm ` set (filter in_flight (update_named n f q))
         = nm ` set (filter in_flight q) \<union> ({n} \<inter> nm ` set q)"
proof (induction q)
  case Nil
  show ?case by (simp add: update_named_def)
next
  case (Cons i q)
  have "update_named n f (i # q) = (if nm i = n then f i else i) # update_named n f q"
    by (simp add: update_named_def)
  with Cons show ?case
    using assms by (cases "nm i = n") auto
qed

lemma in_flight_unmarked:
  assumes "\<And>i. item_file (f i) = item_file i" and "\<And>i. \<not> in_flight (f i)"
  shows "nm ` set (filter in_flight (update_named n f q)) = nm ` set (filter in_flight q) - {n}"
proof (induction q)
  case Nil
  show ?case by (simp add: update_named_def)
next
  case (Cons i q)
  have "update_named n f (i # q) = (if nm i = n then f i else i) # update_named n f q"
    by (simp add: update_named_def)
  with Cons show ?case
    using assms by (cases "nm i = n") auto
qed

lemma consistent_no_downloads: "queue_consistent no_downloads \<and> names_rendered no_downloads"
  by (simp add: queue_consistent_def names_rendered_def no_downloads_def)

lemma single_pending:
  "length (xs @ ys) \<le> 1 \<Longrightarrow> n \<in> set xs \<Longrightarrow> xs = [n] \<and> ys = []"
  "length (xs @ ys) \<le> 1 \<Longrightarrow> n \<in> set ys \<Longrightarrow> xs = [] \<and> ys = [n]"
  by (cases xs; cases ys; auto)+

lemma present_in_rendered:
  "names_rendered s \<Longrightarrow>
     (\<exists>item\<in>set (rendered s). nm item = x) \<longleftrightarrow> (\<exists>item\<in>set (downloadQueue s). nm item = x)"
proof -
  assume "names_rendered s"
  then have "set (map nm (rendered s)) = set (map nm (downloadQueue s))"
    by (simp add: names_rendered_def)
  then have "nm ` set (rendered s) = nm ` set (downloadQueue s)" by simp
  then show ?thesis by (metis (no_types, lifting) image_iff)
qed

lemma consistent_enqueue:
  assumes "queue_consistent s" and "names_rendered s"
  shows "queue_consistent (handleAddToDownloadQueue f s)"
proof (cases "\<exists>item\<in>set (rendered s). nm item = file_name f")
  case True
  with assms show ?thesis by (simp add: handleAddToDownloadQueue_def)
next
  case False
  with assms(2) have "\<not> (\<exists>item\<in>set (downloadQueue s). nm item = file_name f)"
    by (simp add: present_in_rendered)
  with assms(1) False show ?thesis
    by (auto simp: queue_consistent_def handleAddToDownloadQueue_def setDownloadQueue_def
        in_flight_def image_iff)
qed

lemma enqueue_present_noop:
  assumes "names_rendered s" and "\<exists>item\<in>set (downloadQueue s). nm item = file_name f"
  shows "handleAddToDownloadQueue f s = s"
  using assms by (simp add: handleAddToDownloadQueue_def present_in_rendered)

lemma consistent_effect:
  assumes "queue_consistent s" and "rendered s = downloadQueue s"
  shows "queue_consistent (queueEffect s) \<and> names_rendered (queueEffect s)"
proof (cases "\<exists>item\<in>set (rendered s). in_flight item")
  case True
  with assms show ?thesis by (simp add: queueEffect_def names_rendered_def)
next
  case False
  then have none: "filter in_flight (downloadQueue s) = []"
    using assms(2) by (simp add: filter_empty_conv)
  with assms have p: "blobRequests s = []" "saving s = []"
    by (simp_all add: queue_consistent_def)
  show ?thesis
  proof (cases "find (\<lambda>item. item_status item = Queued) (rendered s)")
    case None
    with False assms show ?thesis by (simp add: queueEffect_def names_rendered_def)
  next
    case (Some nxt)
    then have nxt: "nxt \<in> set (downloadQueue s)"
      using assms(2) by (auto simp: find_Some_iff)
    let ?n = "nm nxt"
    let ?q = "update_named ?n (\<lambda>i. i\<lparr>item_status := Preparing\<rparr>) (downloadQueue s)"
    have q: "queueEffect s
        = s\<lparr>downloadQueue := ?q, dirty := True, blobRequests := blobRequests s @ [?n]\<rparr>"
      using False Some by (simp add: queueEffect_def Let_def setDownloadQueue_def)
    have "nm ` set (filter in_flight ?q)
        = nm ` set (filter in_flight (downloadQueue s)) \<union> ({?n} \<inter> nm ` set (downloadQueue s))"
      by (rule in_flight_marked) (simp_all add: in_flight_def)
    also have "\<dots> = {?n}" using none nxt by auto
    finally have "nm ` set (filter in_flight ?q) = {?n}" .
    moreover have "map nm ?q = map nm (downloadQueue s)"
      by (rule names_update_named) simp
    ultimately show ?thesis
      using assms p unfolding q by (simp add: queue_consistent_def names_rendered_def)
  qed
qed

lemma consistent_render:
  assumes "queue_consistent s"
  shows "queue_consistent (render s) \<and> names_rendered (render s)"
proof (cases "dirty s")
  case False
  with assms show ?thesis
    by (simp add: render_def queue_consistent_def names_rendered_def)
next
  case True
  let ?s = "s\<lparr>rendered := downloadQueue s, dirty := False\<rparr>"
  have "queue_consistent ?s" using assms by (simp add: queue_consistent_def)
  moreover have "rendered ?s = downloadQueue ?s" by simp
  ultimately have "queue_consistent (queueEffect ?s) \<and> names_rendered (queueEffect ?s)"
    by (rule consistent_effect)
  with True show ?thesis by (simp add: render_def)
qed

lemma consistent_failed:
  assumes "queue_consistent s" and "n \<in> set (blobRequests s)"
  shows "queue_consistent (blobFailed n message s)
    \<and> (names_rendered s \<longrightarrow> names_rendered (blobFailed n message s))"
proof -
  from assms have p: "blobRequests s = [n]" "saving s = []"
    using single_pending(1) [of "blobRequests s" "saving s" n]
    by (simp_all add: queue_consistent_def)
  let ?f = "\<lambda>i. i\<lparr>item_status := Error,
                   item_error := Some (case message of None \<Rightarrow> ''Failed'' | Some m \<Rightarrow>
                                         if m = [] then ''Failed'' else m)\<rparr>"
  let ?q = "update_named n ?f (downloadQueue s)"
  have "nm ` set (filter in_flight ?q) = nm ` set (filter in_flight (downloadQueue s)) - {n}"
    by (rule in_flight_unmarked) (simp_all add: in_flight_def)
  also have "\<dots> = {}" using assms(1) p by (simp add: queue_consistent_def)
  finally have "nm ` set (filter in_flight ?q) = {}" .
  moreover have "map nm ?q = map nm (downloadQueue s)"
    by (rule names_update_named) simp
  ultimately show ?thesis
    using assms(1) p
    by (simp add: queue_consistent_def names_rendered_def blobFailed_def setDownloadQueue_def)
qed

lemma consistent_ready:
  assumes "queue_consistent s" and "n \<in> set (blobRequests s)"
  shows "queue_consistent (blobReady n u s)
    \<and> (names_rendered s \<longrightarrow> names_rendered (blobReady n u s))"
proof -
  from assms have p: "blobRequests s = [n]" "saving s = []"
    using single_pending(1) [of "blobRequests s" "saving s" n]
    by (simp_all add: queue_consistent_def)
  let ?q = "update_named n (\<lambda>i. i\<lparr>item_status := Downloading, item_url := Some u\<rparr>) (downloadQueue s)"
  have fl: "nm ` set (filter in_flight (downloadQueue s)) = {n}"
    using assms(1) p by (simp add: queue_consistent_def)
  have "nm ` set (filter in_flight ?q)
      = nm ` set (filter in_flight (downloadQueue s)) \<union> ({n} \<inter> nm ` set (downloadQueue s))"
    by (rule in_flight_marked) (simp_all add: in_flight_def)
  also have "\<dots> = {n}" using fl by auto
  finally have "nm ` set (filter in_flight ?q) = {n}" .
  moreover have "map nm ?q = map nm (downloadQueue s)"
    by (rule names_update_named) simp
  ultimately show ?thesis
    using assms(1) p
    by (simp add: queue_consistent_def names_rendered_def blobReady_def setDownloadQueue_def)
qed

lemma consistent_saved:
  assumes "queue_consistent s" and "n \<in> set (saving s)"
  shows "queue_consistent (saved n s) \<and> (names_rendered s \<longrightarrow> names_rendered (saved n s))"
proof -
  from assms have p: "blobRequests s = []" "saving s = [n]"
    using single_pending(2) [of "blobRequests s" "saving s" n]
    by (simp_all add: queue_consistent_def)
  let ?q = "update_named n (\<lambda>i. i\<lparr>item_status := Done\<rparr>) (downloadQueue s)"
  have "nm ` set (filter in_flight ?q) = nm ` set (filter in_flight (downloadQueue s)) - {n}"
    by (rule in_flight_unmarked) (simp_all add: in_flight_def)
  also have "\<dots> = {}" using assms(1) p by (simp add: queue_consistent_def)
  finally have "nm ` set (filter in_flight ?q) = {}" .
  moreover have "map nm ?q = map nm (downloadQueue s)"
    by (rule names_update_named) simp
  ultimately show ?thesis
    using assms(1) p
    by (simp add: queue_consistent_def names_rendered_def saved_def setDownloadQueue_def)
qed

lemma consistent_callback:
  assumes "queue_consistent s"
  shows "queue_consistent (queue_step (BlobError n message) s)
         \<and> (names_rendered s \<longrightarrow> names_rendered (queue_step (BlobError n message) s))"
    and "queue_consistent (queue_step (BlobUrl n u) s)
         \<and> (names_rendered s \<longrightarrow> names_rendered (queue_step (BlobUrl n u) s))"
    and "queue_consistent (queue_step (Saved n) s)
         \<and> (names_rendered s \<longrightarrow> names_rendered (queue_step (Saved n) s))"
  using assms by (simp_all add: consistent_failed consistent_ready consistent_saved)

lemma consistent_spaced:
  "spaced fresh es \<Longrightarrow> queue_consistent s \<Longrightarrow> (fresh \<longrightarrow> names_rendered s) \<Longrightarrow>
     queue_consistent (fold queue_step es s)"
proof (induction es arbitrary: s fresh)
  case Nil
  then show ?case by simp
next
  case (Cons e es)
  show ?case
  proof (cases e)
    case (Enqueue f)
    with Cons.prems have fr: "fresh" "spaced False es" by simp_all
    with Cons.prems have "queue_consistent (handleAddToDownloadQueue f s)"
      by (simp add: consistent_enqueue)
    from Cons.IH [OF fr(2) this] Enqueue show ?thesis by simp
  next
    case Render
    with Cons.prems have sp: "spaced True es" by simp
    from consistent_render [OF Cons.prems(2)] Cons.IH [OF sp, of "render s"] Render
    show ?thesis by simp
  next
    case (BlobError n message)
    with Cons.prems have sp: "spaced fresh es" by simp
    from consistent_callback(1) [OF Cons.prems(2), of n message] BlobError Cons.prems(3)
    have "queue_consistent (queue_step e s)" "fresh \<longrightarrow> names_rendered (queue_step e s)"
      by auto
    from Cons.IH [OF sp this] show ?thesis by simp
  next
    case (BlobUrl n u)
    with Cons.prems have sp: "spaced fresh es" by simp
    from consistent_callback(2) [OF Cons.prems(2), of n u] BlobUrl Cons.prems(3)
    have "queue_consistent (queue_step e s)" "fresh \<longrightarrow> names_rendered (queue_step e s)"
      by auto
    from Cons.IH [OF sp this] show ?thesis by simp
  next
    case (Saved n)
    with Cons.prems have sp: "spaced fresh es" by simp
    from consistent_callback(3) [OF Cons.prems(2), of n] Saved Cons.prems(3)
    have "queue_consistent (queue_step e s)" "fresh \<longrightarrow> names_rendered (queue_step e s)"
      by auto
    from Cons.IH [OF sp this] show ?thesis by simp
  qed
qed

text \<open>
  When a render separates any two calls of the handler, the handler tests a queue that
  has the names of the state: the run keeps the invariant, at most one item is
  preparing or downloading, and a call with a name that is in the queue changes nothing.
\<close>

lemma consistent_single_flight:
  assumes "queue_consistent s"
  shows "length (filter in_flight (downloadQueue s)) \<le> 1"
proof -
  let ?fl = "filter in_flight (downloadQueue s)"
  have "distinct (map nm ?fl)"
    using assms by (simp add: queue_consistent_def distinct_map_filter)
  then have "length ?fl = card (nm ` set ?fl)"
    by (metis distinct_card length_map set_map)
  also have "\<dots> = card (set (blobRequests s @ saving s))"
    using assms by (simp add: queue_consistent_def)
  also have "\<dots> \<le> length (blobRequests s @ saving s)"
    by (rule card_length)
  also have "\<dots> \<le> 1"
    using assms by (simp add: queue_consistent_def)
  finally show ?thesis .
qed

lemma spaced_single_flight:
  assumes "spaced True events"
  shows "length (filter in_flight (downloadQueue (queue_run events))) \<le> 1"
proof -
  have "queue_consistent (queue_run events)"
    unfolding queue_run_def
    using assms consistent_no_downloads by (intro consistent_spaced [of True]) simp_all
  then show ?thesis by (rule consistent_single_flight)
qed

lemmas queue_defs = queue_run_def no_downloads_def handleAddToDownloadQueue_def queueEffect_def
  render_def setDownloadQueue_def in_flight_def update_named_def file_a_def file_b_def
  blobReady_def blobFailed_def saved_def Let_def

lemma rendered_enqueue_single:
  "map item_status (downloadQueue (queue_run [Enqueue file_a, Render, Enqueue file_a, Render]))
     = [Preparing]
   \<and> map item_status (downloadQueue (queue_run
        [Enqueue file_a, Render, Enqueue file_b, Render, BlobUrl ''a.mkv'' ''blob:1'',
         Saved ''a.mkv'', Render, Render]))
     = [Done, Preparing]"
  by (simp add: queue_defs)


section \<open>Properties of the live channel load\<close>

subsection \<open>Auxiliary facts\<close>

lemma console_log_error: "set (console (log_error d s)) = set (console s) \<union> set (console (log_error d s))"
  and ErrorLine_logged: "ErrorLine d \<in> set (console (log_error d s))"
  and log_error_fields:
    "loaded (log_error d s) = loaded s" "hls (log_error d s) = hls s"
    "isMounted (log_error d s) = isMounted s" "hlsSupported (log_error d s) = hlsSupported s"
    "originalUrl (log_error d s) = originalUrl s" "destroyed (log_error d s) = destroyed s"
  by (auto simp: log_error_def log_line_def split: option.splits)

lemma direct_loadChannel: "direct_state url (loadChannel url True native)"
  by (simp add: direct_state_def loadChannel_def attemptLoad_def)

lemma console_grows: "set (console s) \<subseteq> set (console (live_step (HlsError d) s))"
  by (auto simp: handleError_def attemptLoad_def log_error_def log_line_def Let_def
      split: option.splits ErrorType.splits)

lemma error_reported:
  "hls s \<noteq> None \<Longrightarrow> ErrorLine d \<in> set (console (live_step (HlsError d) s))"
  by (auto simp: handleError_def attemptLoad_def log_error_def log_line_def Let_def
      split: option.splits ErrorType.splits)

lemma direct_step:
  assumes "direct_state url s"
  shows "if manifest_load_failure d
         then proxied_state url (live_step (HlsError d) s)
         else direct_state url (live_step (HlsError d) s)"
proof -
  from assms obtain h where h: "hls s = Some h" "source h = url" "\<not> isProxyAttempt h"
    and s: "isMounted s" "hlsSupported s" "originalUrl s = url" "loaded s = [(url, False)]"
      "destroyed s = 0"
    by (auto simp: direct_state_def)
  show ?thesis
  proof (cases "manifest_load_failure d")
    case True
    with h s show ?thesis
      by (simp add: proxied_state_def handleError_def attemptLoad_def log_error_def log_line_def
          Let_def split: option.splits)
  next
    case False
    with h s show ?thesis
      by (simp add: direct_state_def handleError_def log_error_def log_line_def
          Let_def split: option.splits ErrorType.splits)
  qed
qed

lemma proxied_step:
  assumes "proxied_state url s"
  shows "proxied_state url (live_step (HlsError d) s)"
proof -
  from assms obtain h where h: "hls s = Some h" "source h = proxiedUrl url" "isProxyAttempt h"
    and s: "isMounted s" "hlsSupported s" "originalUrl s = url"
      "loaded s = [(url, False), (proxiedUrl url, True)]" "destroyed s = 1"
    by (auto simp: proxied_state_def)
  then show ?thesis
    by (simp add: proxied_state_def handleError_def log_error_def log_line_def
        Let_def split: option.splits ErrorType.splits)
qed

lemma after_errors_snoc:
  "after_errors (ds @ [d]) s = live_step (HlsError d) (after_errors ds s)"
  by (simp add: after_errors_def)

lemma retry_policy_state:
  "(if \<exists>d\<in>set ds. manifest_load_failure d
    then proxied_state url (after_errors ds (loadChannel url True native))
    else direct_state url (after_errors ds (loadChannel url True native)))
   \<and> (\<forall>d\<in>set ds. ErrorLine d \<in> set (console (after_errors ds (loadChannel url True native))))"
proof (induction ds rule: rev_induct)
  case Nil
  show ?case by (simp add: after_errors_def direct_loadChannel)
next
  case (snoc d ds)
  let ?s = "after_errors ds (loadChannel url True native)"
  have live: "hls ?s \<noteq> None"
    using snoc by (auto simp: direct_state_def proxied_state_def split: if_splits)
  have 1: "if \<exists>d\<in>set (ds @ [d]). manifest_load_failure d
    then proxied_state url (after_errors (ds @ [d]) (loadChannel url True native))
    else direct_state url (after_errors (ds @ [d]) (loadChannel url True native))"
  proof (cases "\<exists>d\<in>set ds. manifest_load_failure d")
    case True
    with snoc have "proxied_state url ?s" by simp
    then have "proxied_state url (live_step (HlsError d) ?s)" by (rule proxied_step)
    with True show ?thesis by (simp add: after_errors_snoc del: live_step.simps)
  next
    case False
    with snoc have "direct_state url ?s" by simp
    from direct_step [OF this, of d] False show ?thesis
      by (simp add: after_errors_snoc del: live_step.simps)
  qed
  have 2: "\<forall>x\<in>set (ds @ [d]). ErrorLine x \<in> set (console (after_errors (ds @ [d]) (loadChannel url True native)))"
    using snoc console_grows [of ?s d] error_reported [OF live, of d]
    by (auto simp: after_errors_snoc simp del: live_step.simps)
  from 1 2 show ?case ..
qed

lemma proxied_channel_url:
  "proxiedUrl channel_url = ''https://api.allorigins.win/raw?url=http%3A%2F%2Ftv.example%2Flive.m3u8''"
  by (simp add: proxiedUrl_def proxy_def channel_url_def encodeURIComponent_def encode_char_def
      unreserved_def hex_digit_def)

lemma native_step:
  "hls s = None \<Longrightarrow> hls (live_step e s) = None \<and> loaded (live_step e s) = loaded s
     \<and> video_src (live_step e s) = video_src s"
  by (cases e) (simp_all add: cleanup_def)

lemma native_run:
  "hls s = None \<Longrightarrow> hls (fold live_step es s) = None \<and> loaded (fold live_step es s) = loaded s
     \<and> video_src (fold live_step es s) = video_src s"
proof (induction es arbitrary: s)
  case Nil
  then show ?case by simp
next
  case (Cons e es)
  from native_step [OF Cons.prems, of e] Cons.IH [of "live_step e s"]
  show ?case by simp
qed

lemma native_loadChannel:
  "hls (loadChannel url False native) = None
   \<and> loaded (loadChannel url False native) = (if native then [(url, False)] else [])
   \<and> video_src (loadChannel url False native) = (if native then Some url else None)"
  by (simp add: loadChannel_def attemptLoad_def)


subsection \<open>Retry through the proxy\<close>

text \<open>
  Claim C8, as amended. For every live channel load played through hls.js and every
  sequence of its error events: the loads made are the direct load and, exactly when a
  manifest load error occurred, one load of the original address, URI-encoded, behind
  the proxy; so there is at most one proxy retry, and a manifest load error of the
  proxied attempt starts no further one. Every error is logged, the instance stays
  alive and the component mounted. On the path without hls.js no proxy load is ever
  made.
\<close>

theorem proxy_retry_once:
  "loaded (after_errors ds (loadChannel url True native))
     = (url, False) # (if \<exists>d\<in>set ds. manifest_load_failure d then [(proxiedUrl url, True)] else [])
   \<and> length (filter snd (loaded (after_errors ds (loadChannel url True native)))) \<le> 1
   \<and> (\<exists>h. hls (after_errors ds (loadChannel url True native)) = Some h
          \<and> isProxyAttempt h = (\<exists>d\<in>set ds. manifest_load_failure d)
          \<and> source h = (if \<exists>d\<in>set ds. manifest_load_failure d then proxiedUrl url else url))
   \<and> isMounted (after_errors ds (loadChannel url True native))
   \<and> (\<forall>d\<in>set ds. ErrorLine d \<in> set (console (after_errors ds (loadChannel url True native))))
   \<and> (\<forall>es. filter snd (loaded (fold live_step es (loadChannel url False native))) = []
           \<and> hls (fold live_step es (loadChannel url False native)) = None)"
proof -
  let ?s = "after_errors ds (loadChannel url True native)"
  note st = retry_policy_state [of ds url native]
  have n: "filter snd (loaded (fold live_step es (loadChannel url False native))) = []
           \<and> hls (fold live_step es (loadChannel url False native)) = None" for es
    using native_run [of "loadChannel url False native" es] native_loadChannel [of url native]
    by simp
  show ?thesis
  proof (cases "\<exists>d\<in>set ds. manifest_load_failure d")
    case True
    with st have "proxied_state url ?s" by simp
    then have "loaded ?s = [(url, False), (proxiedUrl url, True)]" "isMounted ?s"
      "\<exists>h. hls ?s = Some h \<and> isProxyAttempt h \<and> source h = proxiedUrl url"
      by (auto simp: proxied_state_def)
    with True st n show ?thesis by simp
  next
    case False
    with st have "direct_state url ?s" by simp
    then have "loaded ?s = [(url, False)]" "isMounted ?s"
      "\<exists>h. hls ?s = Some h \<and> \<not> isProxyAttempt h \<and> source h = url"
      by (auto simp: direct_state_def)
    with False st n show ?thesis by simp
  qed
qed


text \<open>
  Claim C8 as stated holds for every live channel load. Where the browser plays the
  stream itself (\<^verbatim>\<open>Hls.isSupported()\<close> is false), the address is set on the element, no
  error listener exists, and a failed manifest load triggers no retry and no report.
\<close>

theorem native_path_no_retry_counterexample:
  "loaded (fold live_step [VideoError, HlsError manifest_failure] (loadChannel channel_url False True))
     = [(channel_url, False)]
   \<and> video_src (fold live_step [VideoError, HlsError manifest_failure]
        (loadChannel channel_url False True)) = Some channel_url
   \<and> console (fold live_step [VideoError, HlsError manifest_failure]
        (loadChannel channel_url False True)) = []"
  by (simp add: loadChannel_def attemptLoad_def)


theorem proxy_retry_once_witness:
  "manifest_load_failure manifest_failure
   \<and> loaded (after_errors [manifest_failure, manifest_failure] (loadChannel channel_url True False))
       = [(channel_url, False),
          (''https://api.allorigins.win/raw?url=http%3A%2F%2Ftv.example%2Flive.m3u8'', True)]
   \<and> ErrorLine manifest_failure
       \<in> set (console (after_errors [manifest_failure, manifest_failure]
                 (loadChannel channel_url True False)))"
proof -
  have m: "manifest_load_failure manifest_failure"
    by (simp add: manifest_load_failure_def manifest_failure_def)
  then have e: "\<exists>d\<in>set [manifest_failure, manifest_failure]. manifest_load_failure d"
    by simp
  from proxy_retry_once [of "[manifest_failure, manifest_failure]" channel_url False] e m
  show ?thesis
    by (simp add: proxied_channel_url)
qed
end
